theory Spec2Isabelle
  imports Complex_Main "HOL-Library.Log_Nat"
begin


section \<open>Python numbers\<close>

text \<open>
  The program mixes Python's unbounded integers (\<open>int\<close> here) with Python floats, which
  are IEEE-754 binary64 numbers. A finite float is a rational number, so a float value is
  modelled by the rational it denotes, and every float operation is the exact operation
  followed by rounding to the nearest binary64 number, ties to even (\<open>fl\<close>). Results of
  this program stay far inside the normal range, so overflow, subnormal numbers, infinities
  and NaN are not modelled.
\<close>

definition ilog2 :: "rat \<Rightarrow> int" where
  \<comment> \<open>for \<open>r > 0\<close>: the exponent \<open>e\<close> with \<open>2 powi e \<le> r < 2 powi (e + 1)\<close>\<close>
  "ilog2 r = (let (p, q) = quotient_of r; e = bitlen p - bitlen q
              in if 2 powi e \<le> r then e else e - 1)"

definition round_half_even :: "rat \<Rightarrow> int" where
  "round_half_even q =
     (let f = \<lfloor>q\<rfloor>; d = q - of_int f
      in if d < 1 / 2 then f else if 1 / 2 < d then f + 1 else if even f then f else f + 1)"

definition fl :: "rat \<Rightarrow> rat" where
  \<comment> \<open>rounding to 53 significant bits\<close>
  "fl r = (if r = 0 then 0
           else let u = 2 powi (ilog2 \<bar>r\<bar> - 52)
                in of_int (round_half_even (r / u)) * u)"

definition float_of_int :: "int \<Rightarrow> rat" where
  \<comment> \<open>the conversion Python applies to an int operand of a float operation\<close>
  "float_of_int i = fl (of_int i)"

definition int_truediv :: "int \<Rightarrow> int \<Rightarrow> rat" where
  \<comment> \<open>\<open>a / b\<close> on two ints (true division, correctly rounded); \<open>b\<close> is not zero at any call\<close>
  "int_truediv a b = fl (of_int a / of_int b)"

definition fadd :: "rat \<Rightarrow> rat \<Rightarrow> rat" where
  "fadd a b = fl (a + b)"

definition fmul :: "rat \<Rightarrow> rat \<Rightarrow> rat" where
  "fmul a b = fl (a * b)"

definition fdiv :: "rat \<Rightarrow> rat \<Rightarrow> rat" where
  "fdiv a b = fl (a / b)"

definition py_int :: "rat \<Rightarrow> int" where
  \<comment> \<open>\<open>int(x)\<close> on a float: truncation towards zero\<close>
  "py_int r = (if r < 0 then - \<lfloor>- r\<rfloor> else \<lfloor>r\<rfloor>)"

section \<open>Constants, assets and game state\<close>

definition SCREEN_WIDTH :: int where "SCREEN_WIDTH = 800"
definition SCREEN_HEIGHT :: int where "SCREEN_HEIGHT = 600"
definition FOV :: int where "FOV = 150"

datatype error = ZeroDivisionError

datatype weather = Clear | Rainy | Windy | Hot

datatype layer_tag = Far | Mid

text \<open>
  A pygame surface, as far as the program reads it: its size and the RGB value of each
  pixel. \<open>get_at\<close> raises \<open>IndexError\<close> outside the surface, which is \<open>None\<close> here.
\<close>

record surface =
  get_width :: int
  get_height :: int
  pixel :: "int \<Rightarrow> int \<Rightarrow> int \<times> int \<times> int"

definition get_at :: "surface \<Rightarrow> int \<times> int \<Rightarrow> (int \<times> int \<times> int) option" where
  "get_at s p = (case p of (x, y) \<Rightarrow>
     if 0 \<le> x \<and> x < get_width s \<and> 0 \<le> y \<and> y < get_height s then Some (pixel s x y) else None)"

text \<open>The module-level values that are fixed once the program has started.\<close>

record env =
  weather :: weather
  background_far :: surface
  background_mid :: surface
  background_mid_mask :: surface
  background_far_mask :: surface

record fire =
  azimuth :: int
  distance :: int
  layer :: layer_tag
  reported :: bool
  terrain_offset :: int
  lifetime :: rat
  spawn_time :: int

text \<open>
  The mutable globals. The generator of module \<open>random\<close> is a stream of raw draws
  \<open>rng\<close> and the number \<open>rng_pos\<close> of draws consumed so far.
\<close>

record game =
  fires :: "fire list"
  reports :: "(int \<times> int) list"
  player_azimuth :: int
  osborne_open :: bool
  crosshair_pos :: "int \<times> int"
  next_fire_time :: rat
  running :: bool
  rng :: "nat \<Rightarrow> nat"
  rng_pos :: nat

definition randint :: "int \<Rightarrow> int \<Rightarrow> game \<Rightarrow> int \<times> game" where
  \<comment> \<open>\<open>random.randint(lo, hi)\<close>: an integer of the closed range \<open>lo..hi\<close>\<close>
  "randint lo hi g =
     (lo + int (rng g (rng_pos g) mod nat (hi - lo + 1)), g\<lparr>rng_pos := Suc (rng_pos g)\<rparr>)"

definition choice :: "'a list \<Rightarrow> game \<Rightarrow> 'a \<times> game" where
  \<comment> \<open>\<open>random.choice(xs)\<close> on a list that is not empty\<close>
  "choice xs g = (xs ! (rng g (rng_pos g) mod length xs), g\<lparr>rng_pos := Suc (rng_pos g)\<rparr>)"

section \<open>Fire\<close>

definition Fire_init :: "env \<Rightarrow> int \<Rightarrow> int \<Rightarrow> int \<Rightarrow> int \<Rightarrow> game \<Rightarrow> fire \<times> game" where
  \<comment> \<open>\<open>Fire(azimuth, distance, base_lifetime)\<close> when \<open>pygame.time.get_ticks()\<close> is \<open>now\<close>\<close>
  "Fire_init e now az dis base_lifetime g =
     (let (off, g') = randint 0 80 g
      in (\<lparr>azimuth = az,
           distance = dis,
           layer = (if dis > 150 then Far else Mid),
           reported = False,
           terrain_offset = off,
           lifetime = (case weather e of
                         Rainy \<Rightarrow> fmul (float_of_int base_lifetime) (1 / 2)
                       | Windy \<Rightarrow> fmul (float_of_int base_lifetime) (3 / 2)
                       | Hot \<Rightarrow> fmul (float_of_int base_lifetime) 2
                       | Clear \<Rightarrow> of_int base_lifetime),
           spawn_time = now\<rparr>, g'))"

definition is_expired :: "int \<Rightarrow> fire \<Rightarrow> bool" where
  "is_expired now f = (of_int (now - spawn_time f) > lifetime f)"

fun first_terrain_row :: "surface \<Rightarrow> int \<Rightarrow> int list \<Rightarrow> int option" where
  \<comment> \<open>the scan \<open>for y in range(mask_height)\<close> of both terrain queries: the first row whose
      pixel has brightness below 200; a row that raises \<open>IndexError\<close> is skipped\<close>
  "first_terrain_row msk x [] = None"
| "first_terrain_row msk x (y # ys) =
     (case get_at msk (x, y) of
        None \<Rightarrow> first_terrain_row msk x ys
      | Some (r, g, b) \<Rightarrow>
          if int_truediv (r + g + b) 3 < 200 then Some y else first_terrain_row msk x ys)"

definition py_range :: "int \<Rightarrow> int list" where
  "py_range n = map int [0..<nat n]"

definition get_terrain_height_at_screen_x ::
    "fire \<Rightarrow> int \<Rightarrow> surface \<Rightarrow> int \<Rightarrow> error + int" where
  "get_terrain_height_at_screen_x self screen_x msk paz =
     (let mask_width = get_width msk; mask_height = get_height msk
      in if mask_width \<le> SCREEN_WIDTH \<and> mask_width = 0 then Inl ZeroDivisionError
         else
          let mask_x =
               (if mask_width \<le> SCREEN_WIDTH
                then py_int (fmul (int_truediv screen_x SCREEN_WIDTH) (float_of_int mask_width))
                       mod mask_width
                else let parallax_offset =
                           py_int (fmul (fmul (int_truediv paz 360) (float_of_int mask_width))
                                        (float_of_int 1)) mod mask_width
                     in (parallax_offset + screen_x) mod mask_width)
          in case first_terrain_row msk mask_x (py_range mask_height) of
               Some y \<Rightarrow>
                 Inr (py_int (fmul (int_truediv y mask_height) (float_of_int SCREEN_HEIGHT))
                      + terrain_offset self)
             | None \<Rightarrow>
                 (if layer self = Far
                  then Inr (py_int (fmul (float_of_int SCREEN_HEIGHT) (fl (7 / 10)))
                            + terrain_offset self)
                  else Inr (py_int (fmul (float_of_int SCREEN_HEIGHT) (fl (85 / 100)))
                            + terrain_offset self)))"

definition get_screen_pos :: "env \<Rightarrow> fire \<Rightarrow> int \<Rightarrow> error + (int \<times> int) option" where
  "get_screen_pos e self paz =
     (let relative_angle = (azimuth self - paz + 180) mod 360 - 180
      in if of_int \<bar>relative_angle\<bar> > int_truediv FOV 2 then Inr None
         else
          let x = py_int (fmul (fdiv (fadd (float_of_int relative_angle) (int_truediv FOV 2))
                                     (float_of_int FOV))
                               (float_of_int SCREEN_WIDTH));
              msk = (if layer self = Far then background_far_mask e else background_mid_mask e)
          in case get_terrain_height_at_screen_x self x msk paz of
               Inl err \<Rightarrow> Inl err
             | Inr screen_y \<Rightarrow> Inr (Some (x, screen_y)))"

section \<open>Rendering a layer\<close>

text \<open>
  Of the screen only the columns matter here: what a blit leaves at screen column \<open>sx\<close>
  is column \<open>sx - dx\<close> of the blitted image, when that column exists. A narrow image is
  first stretched to the screen size.
\<close>

datatype drawn = ImageCol int | StretchedCol int

type_synonym canvas = "int \<Rightarrow> drawn option"

definition blit :: "int \<Rightarrow> int \<Rightarrow> canvas \<Rightarrow> canvas" where
  "blit w dx c =
     (\<lambda>sx. if 0 \<le> sx \<and> sx < SCREEN_WIDTH \<and> dx \<le> sx \<and> sx < dx + w
           then Some (ImageCol (sx - dx)) else c sx)"

definition blit_stretched :: "canvas \<Rightarrow> canvas" where
  "blit_stretched c = (\<lambda>sx. if 0 \<le> sx \<and> sx < SCREEN_WIDTH then Some (StretchedCol sx) else c sx)"

definition draw_parallax_layer :: "surface \<Rightarrow> int \<Rightarrow> int \<Rightarrow> canvas \<Rightarrow> canvas" where
  "draw_parallax_layer img scroll_factor paz c =
     (let bg_width = get_width img
      in if bg_width \<le> SCREEN_WIDTH then blit_stretched c
         else
          let offset = py_int (fmul (fmul (int_truediv paz 360) (float_of_int bg_width))
                                    (float_of_int scroll_factor)) mod bg_width
          in blit bg_width (- offset + bg_width) (blit bg_width (- offset) c))"

section \<open>Spawning\<close>

definition has_terrain_at_azimuth :: "int \<Rightarrow> surface \<Rightarrow> int \<Rightarrow> error + bool" where
  "has_terrain_at_azimuth az msk paz =
     (let mask_width = get_width msk; mask_height = get_height msk
      in if mask_width \<le> SCREEN_WIDTH \<and> mask_width = 0 then Inl ZeroDivisionError
         else
          let x =
               (if mask_width \<le> SCREEN_WIDTH
                then py_int (fmul (int_truediv az 360) (float_of_int mask_width)) mod mask_width
                else let parallax_offset =
                           py_int (fmul (fmul (int_truediv paz 360) (float_of_int mask_width))
                                        (float_of_int 1)) mod mask_width;
                         base_x = py_int (fmul (int_truediv az 360) (float_of_int mask_width))
                     in (base_x + parallax_offset) mod mask_width)
          in Inr (first_terrain_row msk x (py_range mask_height) \<noteq> None))"

definition max_attempts :: nat where "max_attempts = 20"

function generate_fire_loop :: "env \<Rightarrow> int \<Rightarrow> nat \<Rightarrow> game \<Rightarrow> error + game" where
  "generate_fire_loop e now attempts g =
     (if attempts < max_attempts then
        (let (az, g1) = randint 0 359 g;
             (dis, g2) = choice [100, 200] g1;
             msk = (if dis = 100 then background_mid_mask e else background_far_mask e)
         in case has_terrain_at_azimuth az msk 0 of
              Inl err \<Rightarrow> Inl err
            | Inr True \<Rightarrow>
                (let (base_lifetime, g3) = randint 10000 50000 g2;
                     (f, g4) = Fire_init e now az dis base_lifetime g3
                 in Inr (g4\<lparr>fires := fires g4 @ [f]\<rparr>))
            | Inr False \<Rightarrow> generate_fire_loop e now (attempts + 1) g2)
      else Inr g)"
  by pat_completeness auto
termination
  by (relation "measure (\<lambda>(e, now, attempts, g). max_attempts - attempts)") auto

declare generate_fire_loop.simps [simp del]

definition attempt_mask :: "env \<Rightarrow> int \<Rightarrow> surface" where
  \<comment> \<open>the mask an attempt with distance \<open>dis\<close> is checked against\<close>
  "attempt_mask e dis = (if dis = 100 then background_mid_mask e else background_far_mask e)"

definition generate_fire :: "env \<Rightarrow> int \<Rightarrow> game \<Rightarrow> error + game" where
  "generate_fire e now g = generate_fire_loop e now 0 g"

section \<open>The sweep of expired fires\<close>

definition draw :: "env \<Rightarrow> fire \<Rightarrow> int \<Rightarrow> error + (int \<times> int) option" where
  \<comment> \<open>\<open>Fire.draw\<close>: where the sprite is blitted, if anywhere\<close>
  "draw e self paz = get_screen_pos e self paz"

fun fires_to_remove :: "env \<Rightarrow> int \<Rightarrow> int \<Rightarrow> layer_tag \<Rightarrow> fire list \<Rightarrow> error + fire list" where
  \<comment> \<open>the first loop of \<open>draw_far\<close> (\<open>l = Far\<close>) and of \<open>draw_mid\<close> (\<open>l = Mid\<close>)\<close>
  "fires_to_remove e now paz l [] = Inr []"
| "fires_to_remove e now paz l (f # fs) =
     (if layer f = l then
        (if is_expired now f then
           (case fires_to_remove e now paz l fs of
              Inl err \<Rightarrow> Inl err
            | Inr rm \<Rightarrow> Inr (f # rm))
         else
           (case draw e f paz of
              Inl err \<Rightarrow> Inl err
            | Inr pos \<Rightarrow> fires_to_remove e now paz l fs))
      else fires_to_remove e now paz l fs)"

definition draw_layer :: "env \<Rightarrow> int \<Rightarrow> layer_tag \<Rightarrow> game \<Rightarrow> error + game" where
  \<comment> \<open>\<open>fires.remove(fire)\<close> deletes the first element equal to \<open>fire\<close>\<close>
  "draw_layer e now l g =
     (case fires_to_remove e now (player_azimuth g) l (fires g) of
        Inl err \<Rightarrow> Inl err
      | Inr rm \<Rightarrow> Inr (g\<lparr>fires := fold remove1 rm (fires g)\<rparr>))"

definition draw_far :: "env \<Rightarrow> int \<Rightarrow> game \<Rightarrow> error + game" where
  "draw_far e now g = draw_layer e now Far g"

definition draw_mid :: "env \<Rightarrow> int \<Rightarrow> game \<Rightarrow> error + game" where
  "draw_mid e now g = draw_layer e now Mid g"

section \<open>The instrument and the report\<close>

definition draw_osborne_ui :: "env \<Rightarrow> game \<Rightarrow> int \<times> int \<times> weather" where
  \<comment> \<open>the three values of the status line\<close>
  "draw_osborne_ui e g =
     (let cross_azimuth =
            py_int (fadd (fmul (int_truediv (fst (crosshair_pos g)) SCREEN_WIDTH) (float_of_int FOV))
                         (float_of_int (player_azimuth g - FOV div 2))) mod 360;
          cross_elevation =
            py_int (fdiv (float_of_int (300 - snd (crosshair_pos g))) (int_truediv 600 90))
      in (cross_azimuth, cross_elevation, weather e))"

definition distance_diff :: "int \<Rightarrow> int \<Rightarrow> int \<Rightarrow> int \<Rightarrow> real" where
  \<comment> \<open>\<open>math.sqrt\<close> is taken exactly: it is monotone and correctly rounded, and 50 is a
      float, so the comparison with 50 below has the same outcome\<close>
  "distance_diff fire_x fire_y cross_x cross_y =
     sqrt (of_int ((fire_x - cross_x)\<^sup>2 + (fire_y - cross_y)\<^sup>2))"

fun check_report_loop ::
    "env \<Rightarrow> int \<Rightarrow> int \<Rightarrow> int \<Rightarrow> int \<Rightarrow> fire list \<Rightarrow> error + fire list \<times> (int \<times> int) option" where
  \<comment> \<open>the loop over \<open>fires\<close>: the list after the loop and the report appended, if any\<close>
  "check_report_loop e paz cross_azimuth cross_x cross_y [] = Inr ([], None)"
| "check_report_loop e paz cross_azimuth cross_x cross_y (f # fs) =
     (case get_screen_pos e f paz of
        Inl err \<Rightarrow> Inl err
      | Inr None \<Rightarrow>
          (case check_report_loop e paz cross_azimuth cross_x cross_y fs of
             Inl err \<Rightarrow> Inl err
           | Inr (fs', r) \<Rightarrow> Inr (f # fs', r))
      | Inr (Some (fire_x, fire_y)) \<Rightarrow>
          (let angle_diff = \<bar>(azimuth f - cross_azimuth + 180) mod 360 - 180\<bar>
           in if \<not> reported f \<and> angle_diff < 15
                 \<and> distance_diff fire_x fire_y cross_x cross_y < 50
              then Inr (f\<lparr>reported := True\<rparr> # fs, Some (cross_azimuth, cross_y))
              else
               (case check_report_loop e paz cross_azimuth cross_x cross_y fs of
                  Inl err \<Rightarrow> Inl err
                | Inr (fs', r) \<Rightarrow> Inr (f # fs', r))))"

definition check_report :: "env \<Rightarrow> game \<Rightarrow> error + game" where
  "check_report e g =
     (let cross_azimuth =
            py_int (fadd (fmul (int_truediv (fst (crosshair_pos g)) SCREEN_WIDTH) (float_of_int FOV))
                         (float_of_int (player_azimuth g - FOV div 2))) mod 360;
          (cross_x, cross_y) = crosshair_pos g
      in case check_report_loop e (player_azimuth g) cross_azimuth cross_x cross_y (fires g) of
           Inl err \<Rightarrow> Inl err
         | Inr (fs', None) \<Rightarrow> Inr (g\<lparr>fires := fs'\<rparr>)
         | Inr (fs', Some r) \<Rightarrow> Inr (g\<lparr>fires := fs', reports := reports g @ [r]\<rparr>))"

definition fire_declination :: "int \<Rightarrow> int" where
  \<comment> \<open>computed after the append, for the printed message only\<close>
  "fire_declination cross_y = py_int (fdiv (float_of_int (300 - cross_y)) (int_truediv 600 90))"

section \<open>The main loop\<close>

datatype event = QUIT | KEYDOWN_o | KEYDOWN_SPACE | MOUSEMOTION "int \<times> int" | OTHER

definition handle_event :: "env \<Rightarrow> event \<Rightarrow> game \<Rightarrow> error + game" where
  "handle_event e ev g =
     (case ev of
        QUIT \<Rightarrow> Inr (g\<lparr>running := False\<rparr>)
      | KEYDOWN_o \<Rightarrow> Inr (g\<lparr>osborne_open := \<not> osborne_open g\<rparr>)
      | KEYDOWN_SPACE \<Rightarrow> (if osborne_open g then check_report e g else Inr g)
      | MOUSEMOTION p \<Rightarrow> (if osborne_open g then Inr (g\<lparr>crosshair_pos := p\<rparr>) else Inr g)
      | OTHER \<Rightarrow> Inr g)"

fun handle_events :: "env \<Rightarrow> event list \<Rightarrow> game \<Rightarrow> error + game" where
  "handle_events e [] g = Inr g"
| "handle_events e (ev # evs) g =
     (case handle_event e ev g of
        Inl err \<Rightarrow> Inl err
      | Inr g' \<Rightarrow> handle_events e evs g')"

definition handle_keys :: "bool \<Rightarrow> bool \<Rightarrow> game \<Rightarrow> game" where
  "handle_keys left right g =
     (let g1 = (if left then g\<lparr>player_azimuth := (player_azimuth g - 1) mod 360\<rparr> else g)
      in if right then g1\<lparr>player_azimuth := (player_azimuth g1 + 1) mod 360\<rparr> else g1)"

definition spawn_due :: "env \<Rightarrow> int \<Rightarrow> game \<Rightarrow> error + game" where
  \<comment> \<open>the block \<open>if current_time >= next_fire_time\<close>\<close>
  "spawn_due e current_time g =
     (if of_int current_time \<ge> next_fire_time g then
        (case generate_fire e current_time g of
           Inl err \<Rightarrow> Inl err
         | Inr g1 \<Rightarrow>
             (let (r, g2) = randint 4000 8000 g1;
                  wait = (case weather e of
                            Hot \<Rightarrow> int_truediv r 2
                          | Windy \<Rightarrow> fdiv (float_of_int r) (3 / 2)
                          | Rainy \<Rightarrow> fdiv (float_of_int r) (1 / 2)
                          | Clear \<Rightarrow> int_truediv r 1)
              in Inr (g2\<lparr>next_fire_time := fadd (float_of_int current_time) wait\<rparr>)))
      else Inr g)"

text \<open>
  One iteration of the main loop, for the events of the frame, the state of the two arrow
  keys and the clock value \<open>current_time\<close>, which is also what \<open>get_ticks\<close> returns
  during the frame.
\<close>

definition frame :: "env \<Rightarrow> event list \<Rightarrow> bool \<Rightarrow> bool \<Rightarrow> int \<Rightarrow> game \<Rightarrow> error + game" where
  "frame e evs left right current_time g =
     (case handle_events e evs g of
        Inl err \<Rightarrow> Inl err
      | Inr g1 \<Rightarrow>
          (case spawn_due e current_time (handle_keys left right g1) of
             Inl err \<Rightarrow> Inl err
           | Inr g2 \<Rightarrow>
               (case draw_far e current_time g2 of
                  Inl err \<Rightarrow> Inl err
                | Inr g3 \<Rightarrow> draw_mid e current_time g3)))"

section \<open>Rounding computed on integers\<close>

text \<open>
  A float is \<open>n * 2 powi (e - 52)\<close> for a mantissa \<open>n\<close> and an exponent \<open>e\<close>.
  \<open>fl_nd p q\<close> computes mantissa and exponent of the float nearest to \<open>p / q\<close> with
  integer arithmetic only; it is proved equal to \<open>fl\<close> below and serves to evaluate
  \<open>fl\<close> on concrete numbers.
\<close>

definition fl_nd :: "int \<Rightarrow> int \<Rightarrow> int \<times> int" where
  "fl_nd p q =
     (let e0 = bitlen p - bitlen q;
          e = (if (if 0 \<le> e0 then q * 2 ^ nat e0 \<le> p else q \<le> p * 2 ^ nat (- e0))
               then e0 else e0 - 1);
          s = 52 - e;
          N = (if 0 \<le> s then p * 2 ^ nat s else p);
          D = (if 0 \<le> s then q else q * 2 ^ nat (- s));
          f = N div D;
          rm = N mod D
      in (if 2 * rm < D then f else if D < 2 * rm then f + 1 else if even f then f else f + 1, e))"

definition val :: "int \<times> int \<Rightarrow> rat" where
  "val ne = of_int (fst ne) * 2 powi (snd ne - 52)"

definition num_of :: "int \<times> int \<Rightarrow> int" where
  "num_of ne = (if 52 \<le> snd ne then fst ne * 2 ^ nat (snd ne - 52) else fst ne)"

definition den_of :: "int \<times> int \<Rightarrow> int" where
  "den_of ne = (if 52 \<le> snd ne then 1 else 2 ^ nat (52 - snd ne))"

section \<open>Notions used to state the properties\<close>

text \<open>
  A fire is hit by the current aim when it is unreported, has a screen position, lies
  within 15 degrees of the aim bearing shown by the instrument and within 50 pixels of
  the aim point.
\<close>

definition is_hit :: "env \<Rightarrow> game \<Rightarrow> fire \<Rightarrow> bool" where
  "is_hit e g f =
     (\<not> reported f \<and>
      (case get_screen_pos e f (player_azimuth g) of
         Inr (Some (x, y)) \<Rightarrow>
           \<bar>(azimuth f - fst (draw_osborne_ui e g) + 180) mod 360 - 180\<bar> < 15
           \<and> sqrt (of_int ((x - fst (crosshair_pos g))\<^sup>2 + (y - snd (crosshair_pos g))\<^sup>2)) < 50
       | _ \<Rightarrow> False))"

inductive later_report :: "env \<Rightarrow> game \<Rightarrow> game \<Rightarrow> bool" for e :: env where
  start: "later_report e g g"
| call: "later_report e g g1 \<Longrightarrow> fires h = fires g1 \<Longrightarrow> reports h = reports g1 \<Longrightarrow>
         check_report e h = Inr g2 \<Longrightarrow> later_report e g g2"

definition loop_hit :: "env \<Rightarrow> int \<Rightarrow> int \<Rightarrow> int \<Rightarrow> int \<Rightarrow> fire \<Rightarrow> bool" where
  "loop_hit e paz caz cx cy f =
     (\<not> reported f \<and>
      (case get_screen_pos e f paz of
         Inr (Some (x, y)) \<Rightarrow>
           \<bar>(azimuth f - caz + 180) mod 360 - 180\<bar> < 15 \<and> distance_diff x y cx cy < 50
       | _ \<Rightarrow> False))"

definition survives :: "game \<Rightarrow> game \<Rightarrow> bool" where
  "survives g g' =
     ((\<exists>rs. reports g' = reports g @ rs) \<and>
      (\<forall>f \<in> set (fires g). f \<in> set (fires g') \<or> f\<lparr>reported := True\<rparr> \<in> set (fires g')))"

section \<open>Tables over the field of view and the screen\<close>

text \<open>
  \<open>all_between P lo hi\<close> checks \<open>P\<close> on every integer of the range. \<open>screen_x_int\<close> and
  \<open>elevation_int\<close> are the screen column of \<open>get_screen_pos\<close> and the elevation of the
  instrument, computed with \<open>fl_nd\<close>; 7505999378950827 is the mantissa of the float
  \<open>600 / 90\<close> and 1125899906842624 is \<open>2 ^ 50\<close>.
\<close>

function all_between :: "(int \<Rightarrow> bool) \<Rightarrow> int \<Rightarrow> int \<Rightarrow> bool" where
  "all_between P lo hi = (if hi < lo then True else P lo \<and> all_between P (lo + 1) hi)"
  by pat_completeness auto
termination
  by (relation "measure (\<lambda>(P, lo, hi). nat (hi + 1 - lo))") auto

declare all_between.simps [simp del]

definition screen_x_int :: "int \<Rightarrow> int" where
  "screen_x_int k =
     (let ne = fl_nd k 150; ne2 = fl_nd (num_of ne * 800) (den_of ne)
      in num_of ne2 div den_of ne2)"

definition screen_x_ok :: "int \<Rightarrow> bool" where
  "screen_x_ok k = (screen_x_int k = (if k = 87 then 463 else k * 800 div 150))"

definition elevation_int :: "int \<Rightarrow> int" where
  "elevation_int a =
     (let ne = fl_nd (a * 1125899906842624) 7505999378950827
      in num_of ne div den_of ne)"

definition elevation_ok :: "int \<Rightarrow> bool" where
  "elevation_ok a = (elevation_int a = a * 90 div 600)"

definition parallax_offset_int :: "int \<Rightarrow> int \<Rightarrow> int" where
  \<comment> \<open>\<open>int(v / 360 * W * 1)\<close> for positive \<open>v\<close> and \<open>W\<close>, computed with \<open>fl_nd\<close>\<close>
  "parallax_offset_int v W =
     (let ne = fl_nd v 360;
          ne2 = fl_nd (num_of ne * W) (den_of ne);
          ne3 = fl_nd (num_of ne2 * 1) (den_of ne2)
      in num_of ne3 div den_of ne3)"

section \<open>Example assets and states\<close>


definition dark_mask :: surface where
  "dark_mask = \<lparr>get_width = 800, get_height = 600, pixel = (\<lambda>x y. (0, 0, 0))\<rparr>"

definition blank_mask :: surface where
  "blank_mask = \<lparr>get_width = 800, get_height = 600, pixel = (\<lambda>x y. (255, 255, 255))\<rparr>"

definition ex_env_dark :: env where
  "ex_env_dark = \<lparr>weather = Hot, background_far = dark_mask, background_mid = dark_mask,
                   background_mid_mask = dark_mask, background_far_mask = dark_mask\<rparr>"

definition ex_env_blank :: env where
  "ex_env_blank = \<lparr>weather = Clear, background_far = blank_mask, background_mid = blank_mask,
                   background_mid_mask = blank_mask, background_far_mask = blank_mask\<rparr>"

definition ex_game :: game where
  "ex_game = \<lparr>fires = [], reports = [], player_azimuth = 0, osborne_open = False,
               crosshair_pos = (400, 300), next_fire_time = 0, running = True,
               rng = (\<lambda>i. 40000), rng_pos = 0\<rparr>"


definition ex_spawned :: game where
  "ex_spawned = ex_game\<lparr>rng_pos := 4,
     fires := [\<lparr>azimuth = 40, distance = 100, layer = Mid, reported = False,
                terrain_offset = 67, lifetime = 100000, spawn_time = 0\<rparr>]\<rparr>"

definition wide_mask :: surface where
  "wide_mask = \<lparr>get_width = 1200, get_height = 600, pixel = (\<lambda>x y. (0, 0, 0))\<rparr>"

definition ex_fire_hidden :: fire where
  "ex_fire_hidden = \<lparr>azimuth = 180, distance = 200, layer = Far, reported = False,
                      terrain_offset = 5, lifetime = 100000, spawn_time = 0\<rparr>"

definition ex_fire_seen :: fire where
  "ex_fire_seen = \<lparr>azimuth = 0, distance = 100, layer = Mid, reported = True,
                    terrain_offset = 10, lifetime = 20000, spawn_time = 90000\<rparr>"

definition ex_fire_a :: fire where
  "ex_fire_a = \<lparr>azimuth = 0, distance = 100, layer = Mid, reported = False,
                 terrain_offset = 10, lifetime = 20000, spawn_time = 0\<rparr>"

definition ex_fire_b :: fire where
  "ex_fire_b = \<lparr>azimuth = 0, distance = 200, layer = Far, reported = False,
                 terrain_offset = 20, lifetime = 200000, spawn_time = 0\<rparr>"

definition ex_aim :: game where
  "ex_aim = \<lparr>fires = [ex_fire_hidden, ex_fire_seen, ex_fire_a, ex_fire_b], reports = [],
              player_azimuth = 0, osborne_open = True, crosshair_pos = (400, 10),
              next_fire_time = 1000000, running = True, rng = (\<lambda>i. 0), rng_pos = 0\<rparr>"

definition ex_aim1 :: game where
  "ex_aim1 = ex_aim\<lparr>fires := [ex_fire_hidden, ex_fire_seen, ex_fire_a\<lparr>reported := True\<rparr>, ex_fire_b],
                    reports := [(0, 10)]\<rparr>"

definition ex_aim2 :: game where
  "ex_aim2 = ex_aim\<lparr>fires := [ex_fire_hidden, ex_fire_seen, ex_fire_a\<lparr>reported := True\<rparr>,
                              ex_fire_b\<lparr>reported := True\<rparr>],
                    reports := [(0, 10), (0, 10)]\<rparr>"

definition ex_swept :: game where
  "ex_swept = ex_aim\<lparr>fires := [ex_fire_seen, ex_fire_b]\<rparr>"

definition ex_fire_12 :: fire where
  "ex_fire_12 = \<lparr>azimuth = 12, distance = 100, layer = Mid, reported = False,
                  terrain_offset = 10, lifetime = 20000, spawn_time = 0\<rparr>"

definition ex_low_aim :: game where
  "ex_low_aim = ex_aim\<lparr>crosshair_pos := (25, 301)\<rparr>"

section \<open>Properties of the rounding\<close>

lemma round_half_even_of_int: "round_half_even (of_int n) = n"
  by (simp add: round_half_even_def)

lemma bitlen_pow_bounds:
  assumes "0 < (x::int)"
  shows "(2::rat) powi (bitlen x - 1) \<le> of_int x" and "of_int x < (2::rat) powi (bitlen x)"
proof -
  have b: "1 \<le> bitlen x" using assms by (simp add: bitlen_alt_def)
  have "2 ^ nat (bitlen x - 1) \<le> x" and "x < 2 ^ nat (bitlen x)"
    using bitlen_bounds[OF assms] by simp_all
  then have "(of_int (2 ^ nat (bitlen x - 1)) :: rat) \<le> of_int x"
    and "(of_int x :: rat) < of_int (2 ^ nat (bitlen x))"
    by (simp_all only: of_int_le_iff of_int_less_iff)
  then show "(2::rat) powi (bitlen x - 1) \<le> of_int x" and "of_int x < (2::rat) powi (bitlen x)"
    using b by (simp_all add: power_int_def)
qed

lemma ilog2_bounds:
  assumes "0 < r"
  shows "2 powi (ilog2 r) \<le> r \<and> r < 2 powi (ilog2 r + 1)"
proof -
  obtain p q where pq: "quotient_of r = (p, q)" by (cases "quotient_of r")
  have q: "0 < q" using pq quotient_of_denom_pos by blast
  have r: "r = of_int p / of_int q" using pq quotient_of_div by blast
  have p: "0 < p" using assms q r by (simp add: zero_less_divide_iff)
  define bp bq where "bp = bitlen p" and "bq = bitlen q"
  have bp1: "1 \<le> bp" using p by (simp add: bp_def bitlen_alt_def)
  have bq1: "1 \<le> bq" using q by (simp add: bq_def bitlen_alt_def)
  have plo: "(2::rat) powi (bp - 1) \<le> of_int p" and phi: "of_int p < (2::rat) powi bp"
    using bitlen_pow_bounds[OF p] by (simp_all add: bp_def)
  have qlo: "(2::rat) powi (bq - 1) \<le> of_int q" and qhi: "of_int q < (2::rat) powi bq"
    using bitlen_pow_bounds[OF q] by (simp_all add: bq_def)
  have qr: "0 < (of_int q :: rat)" using q by simp
  have "r * of_int q = of_int p" using r qr by simp
  have up: "r < 2 powi (bp - bq + 1)"
  proof -
    have "of_int p < (2::rat) powi (bp - bq + 1) * 2 powi (bq - 1)"
      using phi by (simp add: power_int_add [symmetric])
    also have "\<dots> \<le> 2 powi (bp - bq + 1) * of_int q"
      using qlo by (simp add: mult_left_mono)
    finally show ?thesis using qr r by (simp add: pos_divide_less_eq)
  qed
  have lo: "2 powi (bp - bq - 1) < r"
  proof -
    have "(2::rat) powi (bp - bq - 1) * of_int q < 2 powi (bp - bq - 1) * 2 powi bq"
      using qhi by (simp add: mult_strict_left_mono)
    also have "\<dots> = 2 powi (bp - 1)"
      by (simp add: power_int_add [symmetric])
    also have "\<dots> \<le> of_int p" by (rule plo)
    finally show ?thesis using qr r by (simp add: pos_less_divide_eq)
  qed
  have il: "ilog2 r = (if 2 powi (bp - bq) \<le> r then bp - bq else bp - bq - 1)"
    by (simp add: ilog2_def pq bp_def bq_def Let_def)
  show ?thesis
    using up lo by (auto simp: il not_le)
qed

lemma two_powi_less_cancel:
  assumes "(2::rat) powi a < 2 powi b"
  shows "a < b"
proof (rule ccontr)
  assume "\<not> a < b"
  then have "(2::rat) powi b \<le> 2 powi a"
    by (intro power_int_increasing) simp_all
  with assms show False by simp
qed

lemma fl_exact:
  assumes "\<bar>m\<bar> < 2 ^ 53"
  shows "fl (of_int m * 2 powi j) = of_int m * 2 powi j"
proof (cases "m = 0")
  case True
  then show ?thesis by (simp add: fl_def)
next
  case False
  define r :: rat where "r = of_int m * 2 powi j"
  have rpos: "0 < \<bar>r\<bar>" using False by (simp add: r_def)
  define e where "e = ilog2 \<bar>r\<bar>"
  have "2 powi e \<le> \<bar>r\<bar>" using ilog2_bounds[OF rpos] by (simp add: e_def)
  also have "\<bar>r\<bar> = of_int \<bar>m\<bar> * 2 powi j" by (simp add: r_def abs_mult)
  also have "\<dots> < 2 ^ 53 * 2 powi j"
  proof -
    have "(of_int \<bar>m\<bar> :: rat) < of_int (2 ^ 53)" using assms by (simp only: of_int_less_iff)
    then show ?thesis by (simp add: mult_strict_right_mono)
  qed
  also have "\<dots> = 2 powi (53 + j)" by (simp add: power_int_add)
  finally have "e < 53 + j" by (rule two_powi_less_cancel)
  then have k: "0 \<le> j - e + 52" by simp
  define u :: rat where "u = 2 powi (e - 52)"
  have "r / u = of_int m * 2 powi (j - (e - 52))"
    by (simp add: r_def u_def power_int_diff)
  also have "\<dots> = of_int (m * 2 ^ nat (j - e + 52))"
    using k by (simp add: power_int_def algebra_simps)
  finally have "round_half_even (r / u) = m * 2 ^ nat (j - e + 52)"
    by (simp only: round_half_even_of_int)
  then have "of_int (round_half_even (r / u)) * u = of_int m * (2 powi (j - e + 52) * 2 powi (e - 52))"
    using k by (simp add: u_def power_int_def)
  also have "\<dots> = r"
    by (simp add: power_int_add [symmetric] r_def)
  finally show ?thesis
    using rpos by (simp add: fl_def e_def [symmetric] u_def [symmetric] r_def [symmetric] Let_def)
qed

lemma float_of_int_exact: "\<bar>i\<bar> < 2 ^ 53 \<Longrightarrow> float_of_int i = of_int i"
  using fl_exact[of i 0] by (simp add: float_of_int_def)


lemma ilog2_unique:
  assumes "0 < r" "2 powi e \<le> r" "r < 2 powi (e + 1)"
  shows "ilog2 r = e"
proof -
  have b: "2 powi (ilog2 r) \<le> r" "r < 2 powi (ilog2 r + 1)"
    using ilog2_bounds[OF assms(1)] by simp_all
  have "(2::rat) powi e < 2 powi (ilog2 r + 1)" using assms(2) b(2) by simp
  then have 1: "e < ilog2 r + 1" by (rule two_powi_less_cancel)
  have "(2::rat) powi (ilog2 r) < 2 powi (e + 1)" using assms(3) b(1) by simp
  then have 2: "ilog2 r < e + 1" by (rule two_powi_less_cancel)
  from 1 2 show ?thesis by simp
qed

lemma ilog2_frac:
  assumes p: "0 < p" and q: "0 < q"
  shows "ilog2 (of_int p / of_int q) =
           (if 2 powi (bitlen p - bitlen q) * of_int q \<le> (of_int p :: rat)
            then bitlen p - bitlen q else bitlen p - bitlen q - 1)"
proof -
  define r :: rat where "r = of_int p / of_int q"
  define bp bq where "bp = bitlen p" and "bq = bitlen q"
  have plo: "(2::rat) powi (bp - 1) \<le> of_int p" and phi: "of_int p < (2::rat) powi bp"
    using bitlen_pow_bounds[OF p] by (simp_all add: bp_def)
  have qlo: "(2::rat) powi (bq - 1) \<le> of_int q" and qhi: "of_int q < (2::rat) powi bq"
    using bitlen_pow_bounds[OF q] by (simp_all add: bq_def)
  have qr: "0 < (of_int q :: rat)" using q by simp
  have rpos: "0 < r" using p q by (simp add: r_def)
  have up: "r < 2 powi (bp - bq + 1)"
  proof -
    have "of_int p < (2::rat) powi (bp - bq + 1) * 2 powi (bq - 1)"
      using phi by (simp add: power_int_add [symmetric])
    also have "\<dots> \<le> 2 powi (bp - bq + 1) * of_int q"
      using qlo by (simp add: mult_left_mono)
    finally show ?thesis using qr by (simp add: r_def pos_divide_less_eq)
  qed
  have lo: "2 powi (bp - bq - 1) < r"
  proof -
    have "(2::rat) powi (bp - bq - 1) * of_int q < 2 powi (bp - bq - 1) * 2 powi bq"
      using qhi by (simp add: mult_strict_left_mono)
    also have "\<dots> = 2 powi (bp - 1)"
      by (simp add: power_int_add [symmetric])
    also have "\<dots> \<le> of_int p" by (rule plo)
    finally show ?thesis using qr by (simp add: r_def pos_less_divide_eq)
  qed
  have c: "2 powi (bp - bq) * of_int q \<le> (of_int p :: rat) \<longleftrightarrow> 2 powi (bp - bq) \<le> r"
    using qr by (simp add: r_def pos_le_divide_eq)
  show ?thesis
  proof (cases "2 powi (bp - bq) \<le> r")
    case True
    then have "ilog2 r = bp - bq" using up rpos by (intro ilog2_unique) simp_all
    with True c show ?thesis by (simp add: r_def bp_def bq_def)
  next
    case False
    then have "ilog2 r = bp - bq - 1" using lo rpos by (intro ilog2_unique) simp_all
    with False c show ?thesis by (simp add: r_def bp_def bq_def)
  qed
qed

lemma round_half_even_frac:
  assumes D: "0 < D"
  shows "round_half_even (of_int N / of_int D) =
           (if 2 * (N mod D) < D then N div D
            else if D < 2 * (N mod D) then N div D + 1
            else if even (N div D) then N div D else N div D + 1)"
proof -
  have f: "\<lfloor>(of_int N :: rat) / of_int D\<rfloor> = N div D"
    by (rule floor_divide_of_int_eq)
  have Dr: "(0::rat) < of_int D" using D by simp
  have "N = D * (N div D) + N mod D" by simp
  then have "(of_int N :: rat) = of_int (D * (N div D) + N mod D)" by (rule arg_cong)
  then have "(of_int N :: rat) = of_int D * of_int (N div D) + of_int (N mod D)"
    by (simp only: of_int_add of_int_mult)
  then have "(of_int N :: rat) / of_int D
               = (of_int D * of_int (N div D) + of_int (N mod D)) / of_int D"
    by (rule arg_cong)
  also have "\<dots> = of_int (N div D) + of_int (N mod D) / of_int D"
    using Dr by (simp add: add_divide_distrib)
  finally have "(of_int N :: rat) / of_int D = of_int (N div D) + of_int (N mod D) / of_int D" .
  then have d: "(of_int N :: rat) / of_int D - of_int (N div D) = of_int (N mod D) / of_int D"
    by simp
  have lt: "(of_int (N mod D) :: rat) / of_int D < 1 / 2 \<longleftrightarrow> 2 * (N mod D) < D"
  proof -
    have "(of_int (N mod D) :: rat) / of_int D < 1 / 2 \<longleftrightarrow> (of_int (2 * (N mod D)) :: rat) < of_int D"
      using Dr by (simp add: field_simps)
    then show ?thesis by (simp only: of_int_less_iff)
  qed
  have gt: "1 / 2 < (of_int (N mod D) :: rat) / of_int D \<longleftrightarrow> D < 2 * (N mod D)"
  proof -
    have "1 / 2 < (of_int (N mod D) :: rat) / of_int D \<longleftrightarrow> (of_int D :: rat) < of_int (2 * (N mod D))"
      using Dr by (simp add: field_simps)
    then show ?thesis by (simp only: of_int_less_iff)
  qed
  show ?thesis
    unfolding round_half_even_def Let_def f d lt gt by simp
qed

lemma val_as_frac: "val ne = of_int (num_of ne) / of_int (den_of ne)"
proof (cases "52 \<le> snd ne")
  case True
  then show ?thesis by (simp add: val_def num_of_def den_of_def power_int_def)
next
  case False
  then have "(2::rat) powi (snd ne - 52) = 1 / 2 ^ nat (52 - snd ne)"
    by (simp add: power_int_def field_simps)
  with False show ?thesis by (simp add: val_def num_of_def den_of_def)
qed

lemma den_of_pos: "0 < den_of ne"
  by (simp add: den_of_def)

lemma fl_frac:
  assumes p: "0 < p" and q: "0 < q"
  shows "fl (of_int p / of_int q) = val (fl_nd p q)"
proof -
  define r :: rat where "r = of_int p / of_int q"
  have rpos: "0 < r" using p q by (simp add: r_def)
  define e0 where "e0 = bitlen p - bitlen q"
  define e where "e = (if (if 0 \<le> e0 then q * 2 ^ nat e0 \<le> p else q \<le> p * 2 ^ nat (- e0))
               then e0 else e0 - 1)"
  define s where "s = 52 - e"
  define N where "N = (if 0 \<le> s then p * 2 ^ nat s else p)"
  define D where "D = (if 0 \<le> s then q else q * 2 ^ nat (- s))"
  have Dpos: "0 < D" using q by (simp add: D_def)
  have cmp: "(if 0 \<le> e0 then q * 2 ^ nat e0 \<le> p else q \<le> p * 2 ^ nat (- e0))
             \<longleftrightarrow> 2 powi e0 * of_int q \<le> (of_int p :: rat)"
  proof (cases "0 \<le> e0")
    case True
    have "q * 2 ^ nat e0 \<le> p \<longleftrightarrow> (of_int (q * 2 ^ nat e0) :: rat) \<le> of_int p"
      by (simp only: of_int_le_iff)
    with True show ?thesis by (simp add: power_int_def mult.commute)
  next
    case False
    have "q \<le> p * 2 ^ nat (- e0) \<longleftrightarrow> (of_int q :: rat) \<le> of_int (p * 2 ^ nat (- e0))"
      by (simp only: of_int_le_iff)
    with False show ?thesis by (simp add: power_int_def field_simps)
  qed
  have "ilog2 r = (if 2 powi e0 * of_int q \<le> (of_int p :: rat) then e0 else e0 - 1)"
    unfolding r_def e0_def by (rule ilog2_frac[OF p q])
  also have "\<dots> = e"
    unfolding e_def cmp by (rule refl)
  finally have il: "ilog2 r = e" .
  have ru: "r / 2 powi (e - 52) = of_int N / of_int D"
  proof (cases "0 \<le> s")
    case True
    then have "(2::rat) powi (e - 52) = 1 / 2 ^ nat s"
      by (simp add: s_def power_int_def field_simps)
    with True show ?thesis by (simp add: r_def N_def D_def)
  next
    case False
    then have "(2::rat) powi (e - 52) = 2 ^ nat (- s)"
      by (simp add: s_def power_int_def)
    with False show ?thesis by (simp add: r_def N_def D_def)
  qed
  have nd: "fl_nd p q =
      (if 2 * (N mod D) < D then N div D
            else if D < 2 * (N mod D) then N div D + 1
            else if even (N div D) then N div D else N div D + 1, e)"
    unfolding fl_nd_def Let_def e0_def [symmetric] e_def [symmetric] s_def [symmetric]
      N_def [symmetric] D_def [symmetric] by (rule refl)
  have "fl r = of_int (round_half_even (r / 2 powi (e - 52))) * 2 powi (e - 52)"
    using rpos by (simp add: fl_def il Let_def)
  also have "\<dots> = val (fl_nd p q)"
    unfolding ru round_half_even_frac[OF Dpos] nd val_def by simp
  finally show ?thesis by (simp add: r_def)
qed

lemma round_half_even_minus: "round_half_even (- q) = - round_half_even q"
proof (cases "q = of_int \<lfloor>q\<rfloor>")
  case True
  then obtain n where "q = of_int n" by blast
  then show ?thesis
    using round_half_even_of_int[of n] round_half_even_of_int[of "- n"] by simp
next
  case False
  then have c: "\<lceil>q\<rceil> = \<lfloor>q\<rfloor> + 1" by (simp add: ceiling_altdef)
  have fm: "\<lfloor>- q\<rfloor> = - \<lfloor>q\<rfloor> - 1" using c by (simp add: floor_minus)
  show ?thesis
    unfolding round_half_even_def Let_def fm by (auto simp: field_simps)
qed

lemma fl_minus: "fl (- r) = - fl r"
  by (simp add: fl_def Let_def round_half_even_minus)

lemma fl_pos:
  assumes rpos: "0 < r"
  shows "0 < fl r"
proof -
  define u :: rat where "u = 2 powi (ilog2 \<bar>r\<bar> - 52)"
  have upos: "0 < u" by (simp add: u_def)
  have "2 powi (ilog2 \<bar>r\<bar>) \<le> r" using ilog2_bounds[of "\<bar>r\<bar>"] rpos by simp
  then have "2 powi (ilog2 \<bar>r\<bar>) / u \<le> r / u" using upos by (simp add: divide_right_mono)
  moreover have "2 powi (ilog2 \<bar>r\<bar>) / u = 2 ^ 52"
    by (simp add: u_def power_int_diff)
  ultimately have "1 \<le> r / u" by simp
  then have f1: "1 \<le> \<lfloor>r / u\<rfloor>" by (simp add: le_floor_iff)
  have f2: "\<lfloor>r / u\<rfloor> \<le> round_half_even (r / u)"
    by (simp add: round_half_even_def Let_def)
  from f1 f2 have "0 < round_half_even (r / u)" by linarith
  then have "0 < of_int (round_half_even (r / u)) * u" using upos by simp
  moreover have "fl r = of_int (round_half_even (r / u)) * u"
    using rpos unfolding fl_def Let_def u_def by simp
  ultimately show ?thesis by simp
qed

lemma fl_nonneg: "0 \<le> r \<Longrightarrow> 0 \<le> fl r"
  using fl_pos[of r] by (cases "r = 0") (simp_all add: fl_def)

lemma fl_nd_mantissa_pos:
  assumes p: "0 < p" and q: "0 < q"
  shows "0 < fst (fl_nd p q)"
proof -
  have "0 < fl (of_int p / of_int q)"
    using p q by (intro fl_pos) simp
  then have "0 < val (fl_nd p q)" by (simp add: fl_frac[OF p q])
  moreover have "(0::rat) < 2 powi (snd (fl_nd p q) - 52)" by simp
  ultimately have "(0::rat) < of_int (fst (fl_nd p q))"
    unfolding val_def by (simp only: zero_less_mult_pos2)
  then show ?thesis by simp
qed

lemma num_of_pos: "0 < fst ne \<Longrightarrow> 0 < num_of ne"
  by (simp add: num_of_def)

lemma fl_zero: "fl 0 = 0"
  by (simp add: fl_def)

lemma fl_numeral: "(numeral n :: int) < 2 ^ 53 \<Longrightarrow> fl (numeral n) = numeral n"
  using fl_exact[of "numeral n" 0] by simp

lemma fl_of_int: "\<bar>i\<bar> < 2 ^ 53 \<Longrightarrow> fl (of_int i) = of_int i"
  using fl_exact[of i 0] by simp

lemma py_int_of_int: "py_int (of_int i) = i"
  by (simp add: py_int_def)






lemma fl_half: "fl (1 / 2) = 1 / 2"
  using fl_exact[of 1 "- 1"] by (simp add: power_int_def)

lemma floor_rat_numeral: "\<lfloor>(numeral a / numeral b :: rat)\<rfloor> = numeral a div numeral b"
  using floor_divide_of_int_eq[of "numeral a" "numeral b", where ?'a = rat] by simp

lemma fl_one: "fl 1 = 1"
  using fl_exact[of 1 0] by simp

lemma fl_div_pow2: "\<bar>m\<bar> < 2 ^ 53 \<Longrightarrow> fl (of_int m / 2 ^ k) = of_int m / 2 ^ k"
proof -
  assume m: "\<bar>m\<bar> < 2 ^ 53"
  have "(2::rat) powi (- int k) = 1 / 2 ^ k"
    by (simp add: power_int_def field_simps)
  then show ?thesis using fl_exact[OF m, of "- int k"] by simp
qed

section \<open>The spawner\<close>

lemma generate_fire_loop_done:
  "\<not> a < max_attempts \<Longrightarrow> generate_fire_loop e now a g = Inr g"
  by (subst generate_fire_loop.simps) simp

lemma generate_fire_loop_error:
  assumes "a < max_attempts" "randint 0 359 g = (az, g1)" "choice [100, 200] g1 = (dis, g2)"
    and "has_terrain_at_azimuth az (attempt_mask e dis) 0 = Inl err"
  shows "generate_fire_loop e now a g = Inl err"
  using assms by (subst generate_fire_loop.simps) (simp add: attempt_mask_def)

lemma generate_fire_loop_miss:
  assumes "a < max_attempts" "randint 0 359 g = (az, g1)" "choice [100, 200] g1 = (dis, g2)"
    and "has_terrain_at_azimuth az (attempt_mask e dis) 0 = Inr False"
  shows "generate_fire_loop e now a g = generate_fire_loop e now (a + 1) g2"
  using assms by (subst generate_fire_loop.simps) (simp add: attempt_mask_def)

lemma generate_fire_loop_spawn:
  assumes "a < max_attempts" "randint 0 359 g = (az, g1)" "choice [100, 200] g1 = (dis, g2)"
    and "has_terrain_at_azimuth az (attempt_mask e dis) 0 = Inr True"
    and "randint 10000 50000 g2 = (b, g3)" "Fire_init e now az dis b g3 = (f, g4)"
  shows "generate_fire_loop e now a g = Inr (g4\<lparr>fires := fires g4 @ [f]\<rparr>)"
  using assms by (subst generate_fire_loop.simps) (simp add: attempt_mask_def)

lemma randint_player_azimuth:
  "randint lo hi g = (x, g') \<Longrightarrow>
   randint lo hi (g\<lparr>player_azimuth := v\<rparr>) = (x, g'\<lparr>player_azimuth := v\<rparr>)"
  by (auto simp: randint_def)

lemma choice_player_azimuth:
  "choice xs g = (x, g') \<Longrightarrow>
   choice xs (g\<lparr>player_azimuth := v\<rparr>) = (x, g'\<lparr>player_azimuth := v\<rparr>)"
  by (auto simp: choice_def)

lemma Fire_init_player_azimuth:
  "Fire_init e now az dis b g = (f, g') \<Longrightarrow>
   Fire_init e now az dis b (g\<lparr>player_azimuth := v\<rparr>) = (f, g'\<lparr>player_azimuth := v\<rparr>)"
  by (auto simp: Fire_init_def randint_def)

lemma generate_fire_loop_player_azimuth:
  "generate_fire_loop e now a (g\<lparr>player_azimuth := v\<rparr>) =
     (case generate_fire_loop e now a g of
        Inl err \<Rightarrow> Inl err
      | Inr g' \<Rightarrow> Inr (g'\<lparr>player_azimuth := v\<rparr>))"
proof (induction "max_attempts - a" arbitrary: a g)
  case 0
  then have "\<not> a < max_attempts" by simp
  then show ?case by (simp add: generate_fire_loop_done)
next
  case (Suc n)
  then have lt: "a < max_attempts" and n: "n = max_attempts - (a + 1)" by simp_all
  obtain az g1 where r1: "randint 0 359 g = (az, g1)" by (cases "randint 0 359 g")
  obtain dis g2 where r2: "choice [100::int, 200] g1 = (dis, g2)"
    by (cases "choice [100::int, 200] g1")
  note r1' = randint_player_azimuth[OF r1, of v] and r2' = choice_player_azimuth[OF r2, of v]
  show ?case
  proof (cases "has_terrain_at_azimuth az (attempt_mask e dis) 0")
    case (Inl err)
    show ?thesis
      by (simp add: generate_fire_loop_error[OF lt r1 r2 Inl]
                    generate_fire_loop_error[OF lt r1' r2' Inl])
  next
    case (Inr t)
    show ?thesis
    proof (cases t)
      case True
      obtain b g3 where r3: "randint 10000 50000 g2 = (b, g3)"
        by (cases "randint 10000 50000 g2")
      obtain f g4 where r4: "Fire_init e now az dis b g3 = (f, g4)"
        by (cases "Fire_init e now az dis b g3")
      note r3' = randint_player_azimuth[OF r3, of v]
      note r4' = Fire_init_player_azimuth[OF r4, of v]
      from Inr True have h: "has_terrain_at_azimuth az (attempt_mask e dis) 0 = Inr True" by simp
      show ?thesis
        by (simp add: generate_fire_loop_spawn[OF lt r1 r2 h r3 r4]
                      generate_fire_loop_spawn[OF lt r1' r2' h r3' r4'])
    next
      case False
      with Inr have h: "has_terrain_at_azimuth az (attempt_mask e dis) 0 = Inr False" by simp
      show ?thesis
        using Suc.hyps(1)[OF n, of g2]
        by (simp add: generate_fire_loop_miss[OF lt r1 r2 h]
                      generate_fire_loop_miss[OF lt r1' r2' h])
    qed
  qed
qed

text \<open>
  Claim C10: the spawner does not depend on the player's view bearing. \<open>generate_fire\<close>
  calls the terrain test with its default view bearing 0, so two runs that differ only in
  \<open>player_azimuth\<close> and share the random draws take the same decision and build the same
  fire: changing \<open>player_azimuth\<close> before the call is the same as changing it after.
\<close>

theorem generate_fire_ignores_player_azimuth:
  "generate_fire e now (g\<lparr>player_azimuth := v\<rparr>) =
     (case generate_fire e now g of
        Inl err \<Rightarrow> Inl err
      | Inr g' \<Rightarrow> Inr (g'\<lparr>player_azimuth := v\<rparr>))"
  unfolding generate_fire_def by (rule generate_fire_loop_player_azimuth)

lemma has_terrain_no_error:
  "0 < get_width m \<Longrightarrow> \<exists>t. has_terrain_at_azimuth az m paz = Inr t"
  by (simp add: has_terrain_at_azimuth_def Let_def)

lemma randint_range:
  assumes "randint lo hi g = (x, g')" "lo \<le> hi"
  shows "lo \<le> x \<and> x \<le> hi"
proof -
  have "0 < nat (hi - lo + 1)" using assms(2) by simp
  then have "rng g (rng_pos g) mod nat (hi - lo + 1) < nat (hi - lo + 1)"
    by (rule mod_less_divisor)
  then have "int (rng g (rng_pos g) mod nat (hi - lo + 1)) < hi - lo + 1"
    using assms(2) by linarith
  then show ?thesis using assms(1) by (auto simp: randint_def)
qed

lemma randint_state:
  "randint lo hi g = (x, g') \<Longrightarrow> g' = g\<lparr>rng_pos := Suc (rng_pos g)\<rparr>"
  by (auto simp: randint_def)

lemma choice_state:
  "choice xs g = (x, g') \<Longrightarrow> g' = g\<lparr>rng_pos := Suc (rng_pos g)\<rparr>"
  by (auto simp: choice_def)

lemma choice_distance:
  "choice [100, 200] g = (dis, g') \<Longrightarrow> dis = (100::int) \<or> dis = 200"
proof -
  assume a: "choice [100, 200] g = (dis, g')"
  have "rng g (rng_pos g) mod 2 = 0 \<or> rng g (rng_pos g) mod 2 = 1" by auto
  then show ?thesis using a by (auto simp add: choice_def simp flip: numeral_2_eq_2)
qed

lemma Fire_init_state:
  "Fire_init e now az dis b g = (f, g') \<Longrightarrow> g' = g\<lparr>rng_pos := Suc (rng_pos g)\<rparr>"
  by (auto simp: Fire_init_def randint_def)

lemma Fire_init_fields:
  assumes "Fire_init e now az dis b g = (f, g')"
  shows "azimuth f = az" "distance f = dis" "layer f = (if dis > 150 then Far else Mid)"
    "\<not> reported f" "spawn_time f = now" "0 \<le> terrain_offset f" "terrain_offset f \<le> 80"
    "lifetime f = (case weather e of
                         Rainy \<Rightarrow> fmul (float_of_int b) (1 / 2)
                       | Windy \<Rightarrow> fmul (float_of_int b) (3 / 2)
                       | Hot \<Rightarrow> fmul (float_of_int b) 2
                       | Clear \<Rightarrow> of_int b)"
proof -
  obtain off g1 where r: "randint 0 80 g = (off, g1)" by (cases "randint 0 80 g")
  have o: "0 \<le> off \<and> off \<le> 80" using randint_range[OF r] by simp
  have f: "f = \<lparr>azimuth = az, distance = dis, layer = (if dis > 150 then Far else Mid),
           reported = False, terrain_offset = off,
           lifetime = (case weather e of
                         Rainy \<Rightarrow> fmul (float_of_int b) (1 / 2)
                       | Windy \<Rightarrow> fmul (float_of_int b) (3 / 2)
                       | Hot \<Rightarrow> fmul (float_of_int b) 2
                       | Clear \<Rightarrow> of_int b),
           spawn_time = now\<rparr>"
    using assms r by (simp add: Fire_init_def)
  show "azimuth f = az" "distance f = dis" "layer f = (if dis > 150 then Far else Mid)"
    "\<not> reported f" "spawn_time f = now" "0 \<le> terrain_offset f" "terrain_offset f \<le> 80"
    "lifetime f = (case weather e of
                         Rainy \<Rightarrow> fmul (float_of_int b) (1 / 2)
                       | Windy \<Rightarrow> fmul (float_of_int b) (3 / 2)
                       | Hot \<Rightarrow> fmul (float_of_int b) 2
                       | Clear \<Rightarrow> of_int b)"
    using o by (simp_all add: f)
qed

lemma generate_fire_loop_spawned:
  assumes "generate_fire_loop e now a g = Inr g'"
  shows "reports g' = reports g \<and>
         (fires g' = fires g \<or>
          (\<exists>f az dis b g3 g4. fires g' = fires g @ [f]
             \<and> has_terrain_at_azimuth az (attempt_mask e dis) 0 = Inr True
             \<and> (dis = 100 \<or> dis = 200) \<and> 10000 \<le> b \<and> b \<le> 50000
             \<and> Fire_init e now az dis b g3 = (f, g4)))"
  using assms
proof (induction "max_attempts - a" arbitrary: a g)
  case 0
  then have "\<not> a < max_attempts" by simp
  with 0 show ?case by (simp add: generate_fire_loop_done)
next
  case (Suc n)
  then have lt: "a < max_attempts" and n: "n = max_attempts - (a + 1)" by simp_all
  obtain az g1 where r1: "randint 0 359 g = (az, g1)" by (cases "randint 0 359 g")
  obtain dis g2 where r2: "choice [100::int, 200] g1 = (dis, g2)"
    by (cases "choice [100::int, 200] g1")
  have g2: "fires g2 = fires g" "reports g2 = reports g"
    using randint_state[OF r1] choice_state[OF r2] by simp_all
  show ?case
  proof (cases "has_terrain_at_azimuth az (attempt_mask e dis) 0")
    case (Inl err)
    then show ?thesis
      using Suc.prems by (simp add: generate_fire_loop_error[OF lt r1 r2 Inl])
  next
    case (Inr t)
    show ?thesis
    proof (cases t)
      case True
      obtain b g3 where r3: "randint 10000 50000 g2 = (b, g3)"
        by (cases "randint 10000 50000 g2")
      obtain f g4 where r4: "Fire_init e now az dis b g3 = (f, g4)"
        by (cases "Fire_init e now az dis b g3")
      from Inr True have h: "has_terrain_at_azimuth az (attempt_mask e dis) 0 = Inr True" by simp
      have g': "g' = g4\<lparr>fires := fires g4 @ [f]\<rparr>"
        using Suc.prems by (simp add: generate_fire_loop_spawn[OF lt r1 r2 h r3 r4])
      have g4: "fires g4 = fires g" "reports g4 = reports g"
        using g2 randint_state[OF r3] Fire_init_state[OF r4] by simp_all
      have b: "10000 \<le> b \<and> b \<le> 50000" using randint_range[OF r3] by simp
      have "fires g' = fires g @ [f]" "reports g' = reports g"
        using g' g4 by simp_all
      moreover have "\<exists>f' az dis b g3 g4. fires g' = fires g @ [f']
             \<and> has_terrain_at_azimuth az (attempt_mask e dis) 0 = Inr True
             \<and> (dis = 100 \<or> dis = 200) \<and> 10000 \<le> b \<and> b \<le> 50000
             \<and> Fire_init e now az dis b g3 = (f', g4)"
        using \<open>fires g' = fires g @ [f]\<close> h choice_distance[OF r2] b r4 by blast
      ultimately show ?thesis by blast
    next
      case False
      with Inr have h: "has_terrain_at_azimuth az (attempt_mask e dis) 0 = Inr False" by simp
      have "generate_fire_loop e now (a + 1) g2 = Inr g'"
        using Suc.prems by (simp add: generate_fire_loop_miss[OF lt r1 r2 h])
      from Suc.hyps(1)[OF n this] show ?thesis by (simp add: g2)
    qed
  qed
qed

lemma generate_fire_loop_no_error:
  assumes "0 < get_width (background_mid_mask e)" "0 < get_width (background_far_mask e)"
  shows "\<exists>g'. generate_fire_loop e now a g = Inr g'"
proof (induction "max_attempts - a" arbitrary: a g)
  case 0
  then have "\<not> a < max_attempts" by simp
  then show ?case by (simp add: generate_fire_loop_done)
next
  case (Suc n)
  then have lt: "a < max_attempts" and n: "n = max_attempts - (a + 1)" by simp_all
  obtain az g1 where r1: "randint 0 359 g = (az, g1)" by (cases "randint 0 359 g")
  obtain dis g2 where r2: "choice [100::int, 200] g1 = (dis, g2)"
    by (cases "choice [100::int, 200] g1")
  have "0 < get_width (attempt_mask e dis)" using assms by (simp add: attempt_mask_def)
  then obtain t where h: "has_terrain_at_azimuth az (attempt_mask e dis) 0 = Inr t"
    using has_terrain_no_error by blast
  show ?case
  proof (cases t)
    case True
    obtain b g3 where r3: "randint 10000 50000 g2 = (b, g3)"
      by (cases "randint 10000 50000 g2")
    obtain f g4 where r4: "Fire_init e now az dis b g3 = (f, g4)"
      by (cases "Fire_init e now az dis b g3")
    from h True have h': "has_terrain_at_azimuth az (attempt_mask e dis) 0 = Inr True" by simp
    show ?thesis by (simp add: generate_fire_loop_spawn[OF lt r1 r2 h' r3 r4])
  next
    case False
    with h have h': "has_terrain_at_azimuth az (attempt_mask e dis) 0 = Inr False" by simp
    show ?thesis using Suc.hyps(1)[OF n, of g2]
      by (simp add: generate_fire_loop_miss[OF lt r1 r2 h'])
  qed
qed

lemma generate_fire_loop_all_miss:
  assumes "a \<le> max_attempts"
    and "\<forall>k < max_attempts - a.
           has_terrain_at_azimuth (int (rng g (rng_pos g + 2 * k) mod 360))
             (if rng g (rng_pos g + 2 * k + 1) mod 2 = 0
              then background_mid_mask e else background_far_mask e) 0 = Inr False"
  shows "generate_fire_loop e now a g = Inr (g\<lparr>rng_pos := rng_pos g + 2 * (max_attempts - a)\<rparr>)"
  using assms
proof (induction "max_attempts - a" arbitrary: a g)
  case 0
  then have "\<not> a < max_attempts" by simp
  with 0 show ?case by (simp add: generate_fire_loop_done)
next
  case (Suc n)
  then have lt: "a < max_attempts" and n: "n = max_attempts - (a + 1)" by simp_all
  define g1 where "g1 = g\<lparr>rng_pos := Suc (rng_pos g)\<rparr>"
  define g2 where "g2 = g1\<lparr>rng_pos := Suc (rng_pos g1)\<rparr>"
  define az where "az = int (rng g (rng_pos g) mod 360)"
  define dis :: int where "dis = [100, 200] ! (rng g (rng_pos g + 1) mod 2)"
  have r1: "randint 0 359 g = (az, g1)" by (simp add: randint_def az_def g1_def)
  have r2: "choice [100, 200] g1 = (dis, g2)"
    by (simp add: choice_def dis_def g1_def g2_def flip: numeral_2_eq_2)
  have m: "attempt_mask e dis = (if rng g (rng_pos g + 1) mod 2 = 0
              then background_mid_mask e else background_far_mask e)"
  proof -
    have "rng g (rng_pos g + 1) mod 2 = 0 \<or> rng g (rng_pos g + 1) mod 2 = 1" by auto
    then show ?thesis by (auto simp: attempt_mask_def dis_def)
  qed
  have "0 < max_attempts - a" using lt by simp
  then have h: "has_terrain_at_azimuth az (attempt_mask e dis) 0 = Inr False"
    using Suc.prems(2)[rule_format, of 0] by (simp add: m az_def)
  have le: "a + 1 \<le> max_attempts" using lt by simp
  have p: "rng g2 = rng g" "rng_pos g2 = rng_pos g + 2" by (simp_all add: g2_def g1_def)
  have "\<forall>k < max_attempts - (a + 1).
           has_terrain_at_azimuth (int (rng g2 (rng_pos g2 + 2 * k) mod 360))
             (if rng g2 (rng_pos g2 + 2 * k + 1) mod 2 = 0
              then background_mid_mask e else background_far_mask e) 0 = Inr False"
  proof (intro allI impI)
    fix k assume "k < max_attempts - (a + 1)"
    then have "Suc k < max_attempts - a" by simp
    from Suc.prems(2)[rule_format, OF this] show "has_terrain_at_azimuth (int (rng g2 (rng_pos g2 + 2 * k) mod 360))
             (if rng g2 (rng_pos g2 + 2 * k + 1) mod 2 = 0
              then background_mid_mask e else background_far_mask e) 0 = Inr False"
      by (simp add: p add.commute add.left_commute)
  qed
  from Suc.hyps(1)[OF n le this]
  have "generate_fire_loop e now (a + 1) g2
          = Inr (g2\<lparr>rng_pos := rng_pos g2 + 2 * (max_attempts - (a + 1))\<rparr>)" .
  moreover have "g2\<lparr>rng_pos := rng_pos g2 + 2 * (max_attempts - (a + 1))\<rparr>
                 = g\<lparr>rng_pos := rng_pos g + 2 * (max_attempts - a)\<rparr>"
    using lt by (simp add: g2_def g1_def)
  ultimately show ?case
    by (simp add: generate_fire_loop_miss[OF lt r1 r2 h])
qed

lemma py_range_Cons: "0 < n \<Longrightarrow> py_range n = 0 # map int [1..<nat n]"
  by (simp add: py_range_def upt_conv_Cons)

lemma first_terrain_row_blank:
  "\<forall>x y. pixel m x y = (255, 255, 255) \<Longrightarrow> first_terrain_row m x ys = None"
proof (induction ys)
  case Nil
  show ?case by simp
next
  case (Cons y ys)
  have "int_truediv (255 + 255 + 255) 3 = 255"
    using fl_exact[of 255 0] by (simp add: int_truediv_def)
  with Cons show ?case by (simp add: get_at_def)
qed

lemma has_terrain_blank: "has_terrain_at_azimuth az blank_mask paz = Inr False"
  by (simp add: has_terrain_at_azimuth_def Let_def blank_mask_def first_terrain_row_blank
                SCREEN_WIDTH_def)

lemma has_terrain_dark: "has_terrain_at_azimuth az dark_mask paz = Inr True"
proof -
  have "first_terrain_row dark_mask (x mod 800) (py_range 600) = Some 0" for x :: int
    by (simp add: py_range_Cons get_at_def dark_mask_def int_truediv_def fl_zero)
  then show ?thesis
    by (simp add: has_terrain_at_azimuth_def Let_def SCREEN_WIDTH_def)
       (simp add: dark_mask_def)
qed

lemma generate_fire_example: "generate_fire ex_env_dark 0 ex_game = Inr ex_spawned"
proof -
  define g1 where "g1 = ex_game\<lparr>rng_pos := 1\<rparr>"
  define g2 where "g2 = ex_game\<lparr>rng_pos := 2\<rparr>"
  define g3 where "g3 = ex_game\<lparr>rng_pos := 3\<rparr>"
  define g4 where "g4 = ex_game\<lparr>rng_pos := 4\<rparr>"
  define f where "f = \<lparr>azimuth = 40, distance = 100, layer = Mid, reported = False,
                terrain_offset = 67, lifetime = 100000, spawn_time = 0\<rparr>"
  have r1: "randint 0 359 ex_game = (40, g1)"
    by (simp add: randint_def ex_game_def g1_def)
  have r2: "choice [100::int, 200] g1 = (100, g2)"
    by (simp add: choice_def ex_game_def g1_def g2_def flip: numeral_2_eq_2)
  have h: "has_terrain_at_azimuth 40 (attempt_mask ex_env_dark 100) 0 = Inr True"
    by (simp add: attempt_mask_def ex_env_dark_def has_terrain_dark)
  have r3: "randint 10000 50000 g2 = (50000, g3)"
    by (simp add: randint_def ex_game_def g2_def g3_def)
  have l: "fmul (float_of_int 50000) 2 = 100000"
    by (simp add: fmul_def float_of_int_def fl_numeral)
  have r4: "Fire_init ex_env_dark 0 40 100 50000 g3 = (f, g4)"
    by (simp add: Fire_init_def randint_def ex_game_def g3_def g4_def f_def ex_env_dark_def l)
  have "0 < max_attempts" by (simp add: max_attempts_def)
  from generate_fire_loop_spawn[OF this r1 r2 h r3 r4]
  show ?thesis
    by (simp add: generate_fire_def ex_spawned_def g4_def f_def ex_game_def)
qed

text \<open>
  Claim C9: a fire that the spawner appends stands on terrain of the mask of its layer (the
  terrain test, called with view bearing 0, succeeded on the drawn bearing); when all 20
  attempts find no terrain the call returns normally and adds nothing. With masks that
  are not empty the spawner never fails.
\<close>

theorem generate_fire_on_terrain:
  assumes "0 < get_width (background_mid_mask e)" and "0 < get_width (background_far_mask e)"
  shows "\<exists>g'. generate_fire e now g = Inr g' \<and>
           (fires g' = fires g \<or>
            (\<exists>f. fires g' = fires g @ [f] \<and>
                 has_terrain_at_azimuth (azimuth f)
                   (if layer f = Far then background_far_mask e else background_mid_mask e) 0
                 = Inr True)) \<and>
           ((\<forall>k<20. has_terrain_at_azimuth (int (rng g (rng_pos g + 2 * k) mod 360))
                       (if rng g (rng_pos g + 2 * k + 1) mod 2 = 0
                        then background_mid_mask e else background_far_mask e) 0 = Inr False)
            \<longrightarrow> g' = g\<lparr>rng_pos := rng_pos g + 40\<rparr>)"
proof -
  obtain g' where g': "generate_fire e now g = Inr g'"
    using generate_fire_loop_no_error[OF assms, of now 0 g] by (auto simp: generate_fire_def)
  have a: "fires g' = fires g \<or>
            (\<exists>f. fires g' = fires g @ [f] \<and>
                 has_terrain_at_azimuth (azimuth f)
                   (if layer f = Far then background_far_mask e else background_mid_mask e) 0
                 = Inr True)"
  proof -
    from generate_fire_loop_spawned[OF g'[unfolded generate_fire_def]]
    consider "fires g' = fires g"
      | f az dis b g3 g4 where "fires g' = fires g @ [f]"
          "has_terrain_at_azimuth az (attempt_mask e dis) 0 = Inr True"
          "dis = 100 \<or> dis = 200" "Fire_init e now az dis b g3 = (f, g4)"
      by blast
    then show ?thesis
    proof cases
      case 1
      then show ?thesis by simp
    next
      case 2
      have "azimuth f = az" "layer f = (if dis > 150 then Far else Mid)"
        using Fire_init_fields[OF 2(4)] by simp_all
      moreover have "attempt_mask e dis
                     = (if (if dis > 150 then Far else Mid) = Far
                        then background_far_mask e else background_mid_mask e)"
        using 2(3) by (auto simp: attempt_mask_def)
      ultimately show ?thesis using 2(1,2) by auto
    qed
  qed
  have b: "g' = g\<lparr>rng_pos := rng_pos g + 40\<rparr>"
    if "\<forall>k<20. has_terrain_at_azimuth (int (rng g (rng_pos g + 2 * k) mod 360))
                       (if rng g (rng_pos g + 2 * k + 1) mod 2 = 0
                        then background_mid_mask e else background_far_mask e) 0 = Inr False"
    using generate_fire_loop_all_miss[of 0 g e now] that g'
    by (simp add: generate_fire_def max_attempts_def)
  from g' a b show ?thesis by blast
qed

theorem generate_fire_on_terrain_witness:
  "(\<exists>f. fires ex_spawned = fires ex_game @ [f] \<and>
        has_terrain_at_azimuth (azimuth f)
          (if layer f = Far then background_far_mask ex_env_dark
           else background_mid_mask ex_env_dark) 0 = Inr True)
   \<and> generate_fire ex_env_blank 0 ex_game = Inr (ex_game\<lparr>rng_pos := 40\<rparr>)"
proof -
  have d: "0 < get_width (background_mid_mask ex_env_dark)"
          "0 < get_width (background_far_mask ex_env_dark)"
    by (simp_all add: ex_env_dark_def dark_mask_def)
  have ne: "fires ex_spawned \<noteq> fires ex_game"
    by (simp add: ex_spawned_def ex_game_def)
  have 1: "\<exists>f. fires ex_spawned = fires ex_game @ [f] \<and>
        has_terrain_at_azimuth (azimuth f)
          (if layer f = Far then background_far_mask ex_env_dark
           else background_mid_mask ex_env_dark) 0 = Inr True"
    using generate_fire_on_terrain[OF d, of 0 ex_game] ne
    by (auto simp: generate_fire_example)
  have w: "0 < get_width (background_mid_mask ex_env_blank)"
          "0 < get_width (background_far_mask ex_env_blank)"
    by (simp_all add: ex_env_blank_def blank_mask_def)
  have m: "\<forall>k<20. has_terrain_at_azimuth (int (rng ex_game (rng_pos ex_game + 2 * k) mod 360))
                       (if rng ex_game (rng_pos ex_game + 2 * k + 1) mod 2 = 0
                        then background_mid_mask ex_env_blank
                        else background_far_mask ex_env_blank) 0 = Inr False"
    by (simp add: ex_env_blank_def has_terrain_blank)
  have 2: "generate_fire ex_env_blank 0 ex_game = Inr (ex_game\<lparr>rng_pos := 40\<rparr>)"
    using generate_fire_on_terrain[OF w, of 0 ex_game] m
    by (auto simp: ex_game_def)
  from 1 2 show ?thesis by simp
qed




section \<open>Reports\<close>

lemma get_terrain_height_no_error:
  "0 < get_width m \<Longrightarrow> \<exists>y. get_terrain_height_at_screen_x f x m paz = Inr y"
  by (simp add: get_terrain_height_at_screen_x_def Let_def split: option.splits)

lemma get_screen_pos_no_error:
  assumes "0 < get_width (background_mid_mask e)" "0 < get_width (background_far_mask e)"
  shows "\<exists>p. get_screen_pos e f paz = Inr p"
proof -
  define x where "x = py_int (fmul (fdiv (fadd (float_of_int ((azimuth f - paz + 180) mod 360 - 180))
                                     (int_truediv FOV 2)) (float_of_int FOV))
                               (float_of_int SCREEN_WIDTH))"
  define m where "m = (if layer f = Far then background_far_mask e else background_mid_mask e)"
  have "0 < get_width m" using assms by (simp add: m_def)
  then obtain y where "get_terrain_height_at_screen_x f x m paz = Inr y"
    using get_terrain_height_no_error by blast
  then show ?thesis
    unfolding get_screen_pos_def Let_def x_def [symmetric] m_def [symmetric] by simp
qed

lemma check_report_loop_first_match:
  assumes "\<forall>f \<in> set fs. \<exists>p. get_screen_pos e f paz = Inr p"
  shows "check_report_loop e paz caz cx cy fs =
           Inr (case dropWhile (\<lambda>f. \<not> loop_hit e paz caz cx cy f) fs of
                  [] \<Rightarrow> (fs, None)
                | f # rest \<Rightarrow>
                    (takeWhile (\<lambda>f. \<not> loop_hit e paz caz cx cy f) fs @ f\<lparr>reported := True\<rparr> # rest,
                     Some (caz, cy)))"
  using assms
proof (induction fs)
  case Nil
  show ?case by simp
next
  case (Cons f fs)
  then obtain p where p: "get_screen_pos e f paz = Inr p" by auto
  have IH: "check_report_loop e paz caz cx cy fs =
           Inr (case dropWhile (\<lambda>f. \<not> loop_hit e paz caz cx cy f) fs of
                  [] \<Rightarrow> (fs, None)
                | f # rest \<Rightarrow>
                    (takeWhile (\<lambda>f. \<not> loop_hit e paz caz cx cy f) fs @ f\<lparr>reported := True\<rparr> # rest,
                     Some (caz, cy)))"
    using Cons by simp
  have skip: ?case
    if nh: "\<not> loop_hit e paz caz cx cy f"
      and l: "check_report_loop e paz caz cx cy (f # fs) =
                (case check_report_loop e paz caz cx cy fs of
                   Inl err \<Rightarrow> Inl err
                 | Inr (fs', r) \<Rightarrow> Inr (f # fs', r))"
  proof (cases "dropWhile (\<lambda>f. \<not> loop_hit e paz caz cx cy f) fs")
    case Nil
    have "dropWhile (\<lambda>f. \<not> loop_hit e paz caz cx cy f) (f # fs) = []"
      using nh Nil by simp
    then show ?thesis unfolding l IH Nil by simp
  next
    case (Cons h rest)
    have "dropWhile (\<lambda>f. \<not> loop_hit e paz caz cx cy f) (f # fs) = h # rest"
      "takeWhile (\<lambda>f. \<not> loop_hit e paz caz cx cy f) (f # fs)
         = f # takeWhile (\<lambda>f. \<not> loop_hit e paz caz cx cy f) fs"
      using nh Cons by simp_all
    then show ?thesis unfolding l IH Cons by simp
  qed
  show ?case
  proof (cases p)
    case None
    then have "\<not> loop_hit e paz caz cx cy f" by (simp add: loop_hit_def p)
    moreover have "check_report_loop e paz caz cx cy (f # fs) =
                (case check_report_loop e paz caz cx cy fs of
                   Inl err \<Rightarrow> Inl err
                 | Inr (fs', r) \<Rightarrow> Inr (f # fs', r))"
      using p None by simp
    ultimately show ?thesis by (rule skip)
  next
    case (Some xy)
    obtain x y where xy: "xy = (x, y)" by (cases xy)
    show ?thesis
    proof (cases "loop_hit e paz caz cx cy f")
      case True
      then show ?thesis using p Some xy by (simp add: loop_hit_def)
    next
      case False
      moreover have "check_report_loop e paz caz cx cy (f # fs) =
                (case check_report_loop e paz caz cx cy fs of
                   Inl err \<Rightarrow> Inl err
                 | Inr (fs', r) \<Rightarrow> Inr (f # fs', r))"
        using p Some xy False by (auto simp: loop_hit_def)
      ultimately show ?thesis by (rule skip)
    qed
  qed
qed

lemma check_report_loop_result:
  assumes "check_report_loop e paz caz cx cy fs = Inr (fs', r)"
  shows "(r = None \<and> fs' = fs) \<or>
         (r = Some (caz, cy) \<and>
          (\<exists>i < length fs. \<not> reported (fs ! i) \<and> fs' = fs[i := (fs ! i)\<lparr>reported := True\<rparr>]))"
  using assms
proof (induction fs arbitrary: fs' r)
  case Nil
  then show ?case by simp
next
  case (Cons f fs)
  have step: ?case
    if rest: "check_report_loop e paz caz cx cy fs = Inr (fs1, r1)" and res: "fs' = f # fs1" "r = r1"
    for fs1 r1
  proof -
    from Cons.IH[OF rest]
    consider "r1 = None" "fs1 = fs"
      | i where "r1 = Some (caz, cy)" "i < length fs" "\<not> reported (fs ! i)"
          "fs1 = fs[i := (fs ! i)\<lparr>reported := True\<rparr>]"
      by blast
    then show ?thesis
    proof cases
      case 1
      then show ?thesis using res by simp
    next
      case 2
      then have "Suc i < length (f # fs)" "\<not> reported ((f # fs) ! Suc i)"
        "fs' = (f # fs)[Suc i := ((f # fs) ! Suc i)\<lparr>reported := True\<rparr>]"
        using res by simp_all
      then show ?thesis using 2(1) res by blast
    qed
  qed
  show ?case
  proof (cases "get_screen_pos e f paz")
    case (Inl err)
    then show ?thesis using Cons.prems by simp
  next
    case (Inr p)
    show ?thesis
    proof (cases p)
      case None
      then show ?thesis
        using Cons.prems Inr step by (auto split: sum.splits prod.splits)
    next
      case (Some xy)
      obtain x y where xy: "xy = (x, y)" by (cases xy)
      show ?thesis
      proof (cases "\<not> reported f \<and> \<bar>(azimuth f - caz + 180) mod 360 - 180\<bar> < 15
                 \<and> distance_diff x y cx cy < 50")
        case True
        then have "fs' = (f # fs)[0 := ((f # fs) ! 0)\<lparr>reported := True\<rparr>]" "r = Some (caz, cy)"
          using Cons.prems Inr Some xy by simp_all
        moreover have "\<not> reported ((f # fs) ! 0)" using True by simp
        ultimately show ?thesis by blast
      next
        case False
        then show ?thesis
          using Cons.prems Inr Some xy step by (auto split: sum.splits prod.splits)
      qed
    qed
  qed
qed

lemma check_report_unfold:
  "check_report e g =
     (case check_report_loop e (player_azimuth g) (fst (draw_osborne_ui e g))
             (fst (crosshair_pos g)) (snd (crosshair_pos g)) (fires g) of
        Inl err \<Rightarrow> Inl err
      | Inr (fs', None) \<Rightarrow> Inr (g\<lparr>fires := fs'\<rparr>)
      | Inr (fs', Some r) \<Rightarrow> Inr (g\<lparr>fires := fs', reports := reports g @ [r]\<rparr>))"
  by (simp add: check_report_def draw_osborne_ui_def Let_def split_beta)

lemma is_hit_loop_hit:
  "is_hit e g f = loop_hit e (player_azimuth g) (fst (draw_osborne_ui e g))
                    (fst (crosshair_pos g)) (snd (crosshair_pos g)) f"
  by (auto simp: is_hit_def loop_hit_def distance_diff_def split: sum.splits option.splits)

lemma check_report_dropWhile:
  assumes "0 < get_width (background_mid_mask e)" and "0 < get_width (background_far_mask e)"
  shows "check_report e g =
           Inr (case dropWhile (\<lambda>f. \<not> is_hit e g f) (fires g) of
                  [] \<Rightarrow> g
                | f # rest \<Rightarrow>
                    g\<lparr>fires := takeWhile (\<lambda>f. \<not> is_hit e g f) (fires g) @ f\<lparr>reported := True\<rparr> # rest,
                      reports := reports g @ [(fst (draw_osborne_ui e g), snd (crosshair_pos g))]\<rparr>)"
proof -
  have "\<forall>f \<in> set (fires g). \<exists>p. get_screen_pos e f (player_azimuth g) = Inr p"
    using get_screen_pos_no_error[OF assms] by blast
  note l = check_report_loop_first_match[OF this, of "fst (draw_osborne_ui e g)"
              "fst (crosshair_pos g)" "snd (crosshair_pos g)"]
  show ?thesis
  proof (cases "dropWhile (\<lambda>f. \<not> loop_hit e (player_azimuth g) (fst (draw_osborne_ui e g))
                    (fst (crosshair_pos g)) (snd (crosshair_pos g)) f) (fires g)")
    case Nil
    show ?thesis unfolding check_report_unfold is_hit_loop_hit l Nil by simp
  next
    case (Cons h rest)
    show ?thesis unfolding check_report_unfold is_hit_loop_hit l Cons by simp
  qed
qed


text \<open>
  Claim C1: \<open>check_report\<close> marks the first fire, in list order, that is unreported, has a
  screen position and lies within 15 degrees of the aim bearing and within 50 pixels of the
  aim point; it appends exactly one report and leaves every other fire as it was. When no
  fire qualifies the state is unchanged.
\<close>

theorem check_report_first_match:
  assumes "0 < get_width (background_mid_mask e)" and "0 < get_width (background_far_mask e)"
  shows "check_report e g =
           Inr (case dropWhile (\<lambda>f. \<not> is_hit e g f) (fires g) of
                  [] \<Rightarrow> g
                | f # rest \<Rightarrow>
                    g\<lparr>fires := takeWhile (\<lambda>f. \<not> is_hit e g f) (fires g) @ f\<lparr>reported := True\<rparr> # rest,
                      reports := reports g @ [(fst (draw_osborne_ui e g), snd (crosshair_pos g))]\<rparr>)"
  by (rule check_report_dropWhile[OF assms])

lemma check_report_result:
  assumes "check_report e g = Inr g'"
  shows "g' = g \<or>
         (\<exists>i < length (fires g). \<not> reported (fires g ! i) \<and>
            g' = g\<lparr>fires := (fires g)[i := (fires g ! i)\<lparr>reported := True\<rparr>],
                   reports := reports g @ [(fst (draw_osborne_ui e g), snd (crosshair_pos g))]\<rparr>)"
proof -
  obtain fs' r where l: "check_report_loop e (player_azimuth g) (fst (draw_osborne_ui e g))
             (fst (crosshair_pos g)) (snd (crosshair_pos g)) (fires g) = Inr (fs', r)"
    using assms unfolding check_report_unfold by (auto split: sum.splits)
  from check_report_loop_result[OF l] show ?thesis
    using assms unfolding check_report_unfold l by auto
qed

lemma unreported_count_update:
  assumes "i < length fs" "\<not> reported (fs ! i)"
  shows "Suc (length (filter (\<lambda>f. \<not> reported f) (fs[i := (fs ! i)\<lparr>reported := True\<rparr>])))
         = length (filter (\<lambda>f. \<not> reported f) fs)"
  using assms
proof (induction fs arbitrary: i)
  case Nil
  then show ?case by simp
next
  case (Cons f fs)
  show ?case
  proof (cases i)
    case 0
    then show ?thesis using Cons.prems by simp
  next
    case (Suc j)
    then show ?thesis using Cons.prems Cons.IH[of j] by simp
  qed
qed

lemma check_report_flags:
  assumes "check_report e g = Inr g'"
  shows "length (fires g') = length (fires g)"
    and "\<forall>i < length (fires g).
           (reported (fires g ! i) \<longrightarrow> fires g' ! i = fires g ! i) \<and>
           (fires g' ! i = fires g ! i \<or> fires g' ! i = (fires g ! i)\<lparr>reported := True\<rparr>)"
    and "length (reports g') + length (filter (\<lambda>f. \<not> reported f) (fires g'))
         = length (reports g) + length (filter (\<lambda>f. \<not> reported f) (fires g))"
proof -
  from check_report_result[OF assms]
  consider "g' = g"
    | i where "i < length (fires g)" "\<not> reported (fires g ! i)"
        "g' = g\<lparr>fires := (fires g)[i := (fires g ! i)\<lparr>reported := True\<rparr>],
                 reports := reports g @ [(fst (draw_osborne_ui e g), snd (crosshair_pos g))]\<rparr>"
    by blast
  then have "length (fires g') = length (fires g)
    \<and> (\<forall>i < length (fires g).
           (reported (fires g ! i) \<longrightarrow> fires g' ! i = fires g ! i) \<and>
           (fires g' ! i = fires g ! i \<or> fires g' ! i = (fires g ! i)\<lparr>reported := True\<rparr>))
    \<and> length (reports g') + length (filter (\<lambda>f. \<not> reported f) (fires g'))
         = length (reports g) + length (filter (\<lambda>f. \<not> reported f) (fires g))"
  proof cases
    case 1
    then show ?thesis by simp
  next
    case 2
    have "\<forall>k < length (fires g).
           (reported (fires g ! k) \<longrightarrow> fires g' ! k = fires g ! k) \<and>
           (fires g' ! k = fires g ! k \<or> fires g' ! k = (fires g ! k)\<lparr>reported := True\<rparr>)"
      using 2 by (auto simp: nth_list_update)
    then show ?thesis
      using 2 unreported_count_update[OF 2(1,2)] by simp
  qed
  then show "length (fires g') = length (fires g)"
    and "\<forall>i < length (fires g).
           (reported (fires g ! i) \<longrightarrow> fires g' ! i = fires g ! i) \<and>
           (fires g' ! i = fires g ! i \<or> fires g' ! i = (fires g ! i)\<lparr>reported := True\<rparr>)"
    and "length (reports g') + length (filter (\<lambda>f. \<not> reported f) (fires g'))
         = length (reports g) + length (filter (\<lambda>f. \<not> reported f) (fires g))"
    by blast+
qed

text \<open>
  Claim C4: over any sequence of later \<open>check_report\<close> calls, whatever the aim point and
  the view bearing of each call, a fire's \<open>reported\<close> flag only ever goes from false to
  true, a fire that is already reported is left untouched, and the number of reports
  appended equals the number of fires whose flag was set: no fire is reported twice.
\<close>

theorem reported_once:
  assumes "later_report e g g'"
  shows "length (fires g') = length (fires g) \<and>
         (\<forall>i < length (fires g).
            (reported (fires g ! i) \<longrightarrow> fires g' ! i = fires g ! i) \<and>
            (fires g' ! i = fires g ! i \<or> fires g' ! i = (fires g ! i)\<lparr>reported := True\<rparr>)) \<and>
         length (reports g') + length (filter (\<lambda>f. \<not> reported f) (fires g'))
           = length (reports g) + length (filter (\<lambda>f. \<not> reported f) (fires g))"
  using assms
proof (induction rule: later_report.induct)
  case (start g)
  show ?case by simp
next
  case (call g g1 h g2)
  note f = check_report_flags[OF call.hyps(4), unfolded call.hyps(2,3)]
  have "\<forall>i < length (fires g).
            (reported (fires g ! i) \<longrightarrow> fires g2 ! i = fires g ! i) \<and>
            (fires g2 ! i = fires g ! i \<or> fires g2 ! i = (fires g ! i)\<lparr>reported := True\<rparr>)"
  proof (intro allI impI)
    fix i assume i: "i < length (fires g)"
    then have i1: "i < length (fires g1)" using call.IH by simp
    have a: "(reported (fires g ! i) \<longrightarrow> fires g1 ! i = fires g ! i) \<and>
            (fires g1 ! i = fires g ! i \<or> fires g1 ! i = (fires g ! i)\<lparr>reported := True\<rparr>)"
      using call.IH i by blast
    have b: "(reported (fires g1 ! i) \<longrightarrow> fires g2 ! i = fires g1 ! i) \<and>
            (fires g2 ! i = fires g1 ! i \<or> fires g2 ! i = (fires g1 ! i)\<lparr>reported := True\<rparr>)"
      using f(2) i1 by blast
    show "(reported (fires g ! i) \<longrightarrow> fires g2 ! i = fires g ! i) \<and>
            (fires g2 ! i = fires g ! i \<or> fires g2 ! i = (fires g ! i)\<lparr>reported := True\<rparr>)"
      using a b by auto
  qed
  then show ?case using call.IH f(1,3) by simp
qed

section \<open>Expiry and the main loop\<close>

lemma fires_to_remove_filter:
  "fires_to_remove e now paz l fs = Inr rm \<Longrightarrow>
   rm = filter (\<lambda>f. layer f = l \<and> is_expired now f) fs"
proof (induction fs arbitrary: rm)
  case Nil
  then show ?case by simp
next
  case (Cons f fs)
  then show ?case
    by (auto simp: draw_def split: if_splits sum.splits)
qed

lemma fold_remove1_Cons:
  "x \<notin> set ys \<Longrightarrow> fold remove1 ys (x # zs) = x # fold remove1 ys zs"
  by (induction ys arbitrary: zs) auto

lemma fold_remove1_filter:
  "fold remove1 (filter P xs) xs = filter (\<lambda>x. \<not> P x) xs"
proof (induction xs)
  case Nil
  show ?case by simp
next
  case (Cons x xs)
  show ?case
  proof (cases "P x")
    case True
    then show ?thesis using Cons by simp
  next
    case False
    then have "x \<notin> set (filter P xs)" by auto
    then show ?thesis using False Cons by (simp add: fold_remove1_Cons)
  qed
qed

lemma draw_layer_result:
  assumes "draw_layer e now l g = Inr g'"
  shows "g' = g\<lparr>fires := filter (\<lambda>f. \<not> (layer f = l \<and> is_expired now f)) (fires g)\<rparr>"
proof -
  obtain rm where rm: "fires_to_remove e now (player_azimuth g) l (fires g) = Inr rm"
    using assms by (auto simp: draw_layer_def split: sum.splits)
  have "rm = filter (\<lambda>f. layer f = l \<and> is_expired now f) (fires g)"
    by (rule fires_to_remove_filter[OF rm])
  then show ?thesis
    using assms rm by (simp add: draw_layer_def fold_remove1_filter)
qed

lemma sweep_result:
  assumes "draw_far e now g = Inr g1" and "draw_mid e now g1 = Inr g2"
  shows "g2 = g\<lparr>fires := filter (\<lambda>f. \<not> is_expired now f) (fires g)\<rparr>"
proof -
  have "layer f = Far \<or> layer f = Mid" for f :: fire by (cases "layer f") simp_all
  then have "filter (\<lambda>f. \<not> (layer f = Mid \<and> is_expired now f))
               (filter (\<lambda>f. \<not> (layer f = Far \<and> is_expired now f)) (fires g))
             = filter (\<lambda>f. \<not> is_expired now f) (fires g)"
    by (auto intro!: filter_cong)
  then show ?thesis
    using draw_layer_result[OF assms(1)[unfolded draw_far_def]]
          draw_layer_result[OF assms(2)[unfolded draw_mid_def]]
    by simp
qed

lemma survives_refl: "survives g g"
  by (simp add: survives_def)

lemma survives_trans: "survives g g1 \<Longrightarrow> survives g1 g2 \<Longrightarrow> survives g g2"
  unfolding survives_def
proof (intro conjI ballI)
  assume a: "(\<exists>rs. reports g1 = reports g @ rs) \<and>
     (\<forall>f\<in>set (fires g). f \<in> set (fires g1) \<or> f\<lparr>reported := True\<rparr> \<in> set (fires g1))"
    and b: "(\<exists>rs. reports g2 = reports g1 @ rs) \<and>
     (\<forall>f\<in>set (fires g1). f \<in> set (fires g2) \<or> f\<lparr>reported := True\<rparr> \<in> set (fires g2))"
  show "\<exists>rs. reports g2 = reports g @ rs" using a b by auto
  fix f assume "f \<in> set (fires g)"
  then consider "f \<in> set (fires g1)" | "f\<lparr>reported := True\<rparr> \<in> set (fires g1)"
    using a by blast
  then show "f \<in> set (fires g2) \<or> f\<lparr>reported := True\<rparr> \<in> set (fires g2)"
  proof cases
    case 1
    then show ?thesis using b by blast
  next
    case 2
    then have "f\<lparr>reported := True\<rparr> \<in> set (fires g2)
               \<or> f\<lparr>reported := True\<rparr>\<lparr>reported := True\<rparr> \<in> set (fires g2)"
      using b by blast
    then show ?thesis by simp
  qed
qed

lemma check_report_survives: "check_report e g = Inr g' \<Longrightarrow> survives g g'"
proof -
  assume "check_report e g = Inr g'"
  from check_report_result[OF this]
  consider "g' = g"
    | i where "i < length (fires g)"
        "g' = g\<lparr>fires := (fires g)[i := (fires g ! i)\<lparr>reported := True\<rparr>],
                 reports := reports g @ [(fst (draw_osborne_ui e g), snd (crosshair_pos g))]\<rparr>"
    by blast
  then show ?thesis
  proof cases
    case 1
    then show ?thesis by (simp add: survives_refl)
  next
    case 2
    have "f \<in> set ((fires g)[i := (fires g ! i)\<lparr>reported := True\<rparr>])
          \<or> f\<lparr>reported := True\<rparr> \<in> set ((fires g)[i := (fires g ! i)\<lparr>reported := True\<rparr>])"
      if "f \<in> set (fires g)" for f
    proof -
      from that obtain k where k: "k < length (fires g)" "fires g ! k = f"
        by (auto simp: in_set_conv_nth)
      have "(fires g)[i := (fires g ! i)\<lparr>reported := True\<rparr>] ! k
            = (if k = i then f\<lparr>reported := True\<rparr> else f)"
        using k 2(1) by (auto simp: nth_list_update)
      moreover have "(fires g)[i := (fires g ! i)\<lparr>reported := True\<rparr>] ! k
            \<in> set ((fires g)[i := (fires g ! i)\<lparr>reported := True\<rparr>])"
        using k by (intro nth_mem) simp
      ultimately show ?thesis by (auto split: if_splits)
    qed
    then show ?thesis using 2(2) by (simp add: survives_def)
  qed
qed

lemma handle_event_survives: "handle_event e ev g = Inr g' \<Longrightarrow> survives g g'"
proof (cases ev)
  case KEYDOWN_SPACE
  assume "handle_event e ev g = Inr g'"
  then show ?thesis
    using KEYDOWN_SPACE
    by (auto simp: handle_event_def survives_refl intro: check_report_survives split: if_splits)
qed (auto simp: handle_event_def survives_def split: if_splits)

lemma handle_events_survives: "handle_events e evs g = Inr g' \<Longrightarrow> survives g g'"
proof (induction evs arbitrary: g)
  case Nil
  then show ?case by (simp add: survives_refl)
next
  case (Cons ev evs)
  then obtain g1 where 1: "handle_event e ev g = Inr g1" and 2: "handle_events e evs g1 = Inr g'"
    by (auto split: sum.splits)
  from survives_trans[OF handle_event_survives[OF 1] Cons.IH[OF 2]] show ?case .
qed

lemma handle_keys_survives: "survives g (handle_keys left right g)"
  by (simp add: handle_keys_def survives_def Let_def)

lemma spawn_due_survives: "spawn_due e now g = Inr g' \<Longrightarrow> survives g g'"
proof -
  assume a: "spawn_due e now g = Inr g'"
  show ?thesis
  proof (cases "of_int now \<ge> next_fire_time g")
    case False
    then show ?thesis using a by (simp add: spawn_due_def survives_refl)
  next
    case True
    then obtain g1 where g1: "generate_fire e now g = Inr g1"
      using a by (auto simp: spawn_due_def split: sum.splits)
    obtain r g2 where r: "randint 4000 8000 g1 = (r, g2)" by (cases "randint 4000 8000 g1")
    have "fires g' = fires g2" "reports g' = reports g2"
      using a True g1 r by (auto simp: spawn_due_def)
    moreover have "fires g2 = fires g1" "reports g2 = reports g1"
      using randint_state[OF r] by simp_all
    moreover have "reports g1 = reports g"
      "fires g1 = fires g \<or> (\<exists>f. fires g1 = fires g @ [f])"
      using generate_fire_loop_spawned[OF g1[unfolded generate_fire_def]] by auto
    ultimately show ?thesis by (auto simp: survives_def)
  qed
qed

lemma frame_result:
  assumes "frame e evs left right now g = Inr g'"
  shows "\<exists>g2. survives g g2 \<and> g' = g2\<lparr>fires := filter (\<lambda>f. \<not> is_expired now f) (fires g2)\<rparr>"
proof -
  obtain g1 where 1: "handle_events e evs g = Inr g1"
    using assms by (auto simp: frame_def split: sum.splits)
  obtain g2 where 2: "spawn_due e now (handle_keys left right g1) = Inr g2"
    using assms 1 by (auto simp: frame_def split: sum.splits)
  obtain g3 where 3: "draw_far e now g2 = Inr g3"
    using assms 1 2 by (auto simp: frame_def split: sum.splits)
  have 4: "draw_mid e now g3 = Inr g'"
    using assms 1 2 3 by (simp add: frame_def)
  have "survives g g2"
    using survives_trans[OF handle_events_survives[OF 1]
            survives_trans[OF handle_keys_survives spawn_due_survives[OF 2]]] .
  with sweep_result[OF 3 4] show ?thesis by blast
qed

lemma is_expired_reported: "is_expired now (f\<lparr>reported := b\<rparr>) = is_expired now f"
  by (simp add: is_expired_def)

text \<open>
  Claim C8: a fire is expired exactly when the clock minus its spawn time exceeds its
  lifetime (so at \<open>T0 + L + 1\<close> and not at \<open>T0 + L - 1\<close>); the sweep of a tick removes
  exactly the expired fires; and over a whole iteration of the main loop every fire that
  is not expired is still in the list afterwards, at most with its \<open>reported\<close> flag set.
\<close>

theorem expiry_only_exit:
  "(is_expired now f \<longleftrightarrow> of_int (now - spawn_time f) > lifetime f)
   \<and> (of_int now = of_int (spawn_time f) + lifetime f + 1 \<longrightarrow> is_expired now f)
   \<and> (of_int now = of_int (spawn_time f) + lifetime f - 1 \<longrightarrow> \<not> is_expired now f)
   \<and> (draw_far e now g = Inr g1 \<longrightarrow> draw_mid e now g1 = Inr g2 \<longrightarrow>
        fires g2 = filter (\<lambda>x. \<not> is_expired now x) (fires g))
   \<and> (frame e evs left right now g = Inr g' \<longrightarrow>
        (\<forall>x \<in> set (fires g'). \<not> is_expired now x) \<and>
        (\<forall>x \<in> set (fires g). \<not> is_expired now x \<longrightarrow>
             x \<in> set (fires g') \<or> x\<lparr>reported := True\<rparr> \<in> set (fires g')))"
proof (intro conjI impI)
  show "is_expired now f \<longleftrightarrow> of_int (now - spawn_time f) > lifetime f"
    by (simp add: is_expired_def)
  show "is_expired now f" if "of_int now = of_int (spawn_time f) + lifetime f + 1"
    using that by (simp add: is_expired_def)
  show "\<not> is_expired now f" if "of_int now = of_int (spawn_time f) + lifetime f - 1"
    using that by (simp add: is_expired_def)
  show "fires g2 = filter (\<lambda>x. \<not> is_expired now x) (fires g)"
    if "draw_far e now g = Inr g1" "draw_mid e now g1 = Inr g2"
    using sweep_result[OF that] by simp
next
  assume "frame e evs left right now g = Inr g'"
  from frame_result[OF this] obtain g2 where s: "survives g g2"
    and g': "g' = g2\<lparr>fires := filter (\<lambda>f. \<not> is_expired now f) (fires g2)\<rparr>" by blast
  show "\<forall>x \<in> set (fires g'). \<not> is_expired now x" using g' by simp
  show "\<forall>x \<in> set (fires g). \<not> is_expired now x \<longrightarrow>
             x \<in> set (fires g') \<or> x\<lparr>reported := True\<rparr> \<in> set (fires g')"
  proof (intro ballI impI)
    fix x assume x: "x \<in> set (fires g)" "\<not> is_expired now x"
    then have "x \<in> set (fires g2) \<or> x\<lparr>reported := True\<rparr> \<in> set (fires g2)"
      using s by (simp add: survives_def)
    then show "x \<in> set (fires g') \<or> x\<lparr>reported := True\<rparr> \<in> set (fires g')"
      using x(2) g' by (auto simp: is_expired_reported)
  qed
qed

text \<open>
  Claim C2, as amended: the record appended on a hit is the pair of the aim bearing and
  the aim point's y coordinate in pixels (the elevation in degrees is computed afterwards,
  for the printed message only), and the list of reports only grows: a call of
  \<open>check_report\<close> appends at most this one record, and an iteration of the main loop
  keeps every earlier record in place.
\<close>

theorem reports_grow:
  "(check_report e g = Inr g' \<longrightarrow>
      reports g' = reports g \<or>
      reports g' = reports g @ [(fst (draw_osborne_ui e g), snd (crosshair_pos g))])
   \<and> (frame e evs left right now g = Inr g'' \<longrightarrow> (\<exists>rs. reports g'' = reports g @ rs))"
proof (intro conjI impI)
  assume "check_report e g = Inr g'"
  from check_report_result[OF this]
  show "reports g' = reports g \<or>
      reports g' = reports g @ [(fst (draw_osborne_ui e g), snd (crosshair_pos g))]"
    by auto
next
  assume "frame e evs left right now g = Inr g''"
  from frame_result[OF this] show "\<exists>rs. reports g'' = reports g @ rs"
    by (auto simp: survives_def)
qed

section \<open>Rendering and the terrain query\<close>

lemma py_int_nonneg: "0 \<le> r \<Longrightarrow> py_int r = \<lfloor>r\<rfloor>"
  by (simp add: py_int_def)

lemma blit_twice_column:
  assumes w: "SCREEN_WIDTH < w" and x: "0 \<le> x" "x < SCREEN_WIDTH" and o: "0 \<le> off" "off < w"
  shows "blit w (- off + w) (blit w (- off) c) x = Some (ImageCol ((off + x) mod w))"
proof (cases "- off + w \<le> x")
  case True
  then have "(off + x) mod w = off + x - w"
    using w x o by (subst mod_pos_pos_trivial[symmetric, of "off + x - w" w]) (simp_all add: mod_diff_right_eq [symmetric])
  with True show ?thesis using w x o by (simp add: blit_def)
next
  case False
  then have "(off + x) mod w = off + x" using w x o by simp
  with False show ?thesis using w x o by (simp add: blit_def)
qed

text \<open>
  Claim C6, as amended: for a mask wider than the screen and a screen column \<open>x\<close>, the
  column that \<open>get_terrain_height_at_screen_x\<close> scans at view bearing \<open>v\<close> is the column of
  the image that \<open>draw_parallax_layer\<close> with scroll factor 1 puts at \<open>x\<close>: it is
  \<open>(parallax_offset + x) mod W\<close>, the offset being \<open>int(v / 360 * W * 1) mod W\<close> evaluated in
  double precision. For a view bearing that is not negative that is the floor of the rounded
  product, which is not always \<open>floor (v / 360 * W)\<close>: at \<open>v = 33\<close> and \<open>W = 1200\<close> the product
  rounds below 110 and the offset is 109.
\<close>

theorem render_query_roundtrip:
  assumes "SCREEN_WIDTH < get_width m" and "0 \<le> x" and "x < SCREEN_WIDTH"
  shows "\<exists>col. draw_parallax_layer m 1 v c x = Some (ImageCol col)
           \<and> col = (py_int (fmul (fmul (int_truediv v 360) (float_of_int (get_width m)))
                                 (float_of_int 1)) mod get_width m + x) mod get_width m
           \<and> (0 \<le> v \<longrightarrow>
                col = (\<lfloor>fmul (fmul (int_truediv v 360) (float_of_int (get_width m)))
                              (float_of_int 1)\<rfloor> mod get_width m + x) mod get_width m)
           \<and> get_terrain_height_at_screen_x f x m v =
               (case first_terrain_row m col (py_range (get_height m)) of
                  Some y \<Rightarrow>
                    Inr (py_int (fmul (int_truediv y (get_height m)) (float_of_int SCREEN_HEIGHT))
                         + terrain_offset f)
                | None \<Rightarrow>
                    (if layer f = Far
                     then Inr (py_int (fmul (float_of_int SCREEN_HEIGHT) (fl (7 / 10)))
                               + terrain_offset f)
                     else Inr (py_int (fmul (float_of_int SCREEN_HEIGHT) (fl (85 / 100)))
                               + terrain_offset f)))"
proof -
  define W where "W = get_width m"
  define t where "t = fmul (fmul (int_truediv v 360) (float_of_int W)) (float_of_int 1)"
  define off where "off = py_int t mod W"
  have Wpos: "0 < W" using assms(1) by (simp add: W_def SCREEN_WIDTH_def)
  have o: "0 \<le> off" "off < W" using Wpos by (simp_all add: off_def)
  have wide: "\<not> W \<le> SCREEN_WIDTH" using assms(1) by (simp add: W_def)
  have r: "draw_parallax_layer m 1 v c x = Some (ImageCol ((off + x) mod W))"
    using blit_twice_column[OF assms(1)[folded W_def] assms(2,3) o, of c] wide
    by (simp add: draw_parallax_layer_def Let_def W_def [symmetric] t_def [symmetric]
                  off_def [symmetric])
  have fl: "py_int t = \<lfloor>t\<rfloor>" if "0 \<le> v"
  proof -
    have "0 \<le> int_truediv v 360" using that by (simp add: int_truediv_def fl_nonneg)
    moreover have "0 \<le> float_of_int W" using Wpos by (simp add: float_of_int_def fl_nonneg)
    moreover have "0 \<le> float_of_int 1" by (simp add: float_of_int_def fl_nonneg)
    ultimately have "0 \<le> t" by (simp add: t_def fmul_def fl_nonneg)
    then show ?thesis by (rule py_int_nonneg)
  qed
  have q: "get_terrain_height_at_screen_x f x m v =
               (case first_terrain_row m ((off + x) mod W) (py_range (get_height m)) of
                  Some y \<Rightarrow>
                    Inr (py_int (fmul (int_truediv y (get_height m)) (float_of_int SCREEN_HEIGHT))
                         + terrain_offset f)
                | None \<Rightarrow>
                    (if layer f = Far
                     then Inr (py_int (fmul (float_of_int SCREEN_HEIGHT) (fl (7 / 10)))
                               + terrain_offset f)
                     else Inr (py_int (fmul (float_of_int SCREEN_HEIGHT) (fl (85 / 100)))
                               + terrain_offset f)))"
    using wide
    by (simp add: get_terrain_height_at_screen_x_def Let_def W_def [symmetric] t_def [symmetric]
                  off_def [symmetric])
  show ?thesis
    using r q fl
    by (simp add: off_def t_def W_def)
qed

section \<open>The example states evaluated\<close>

lemma int_truediv_FOV_2: "int_truediv FOV 2 = 75"
  by (simp add: int_truediv_def FOV_def fl_numeral)

lemma first_terrain_row_dark:
  "0 \<le> x \<Longrightarrow> x < 800 \<Longrightarrow> first_terrain_row dark_mask x (py_range 600) = Some 0"
  by (simp add: py_range_Cons get_at_def dark_mask_def int_truediv_def fl_zero)

lemma get_terrain_height_dark:
  "get_terrain_height_at_screen_x f x dark_mask paz = Inr (terrain_offset f)"
proof -
  have w: "get_width dark_mask = 800" "get_height dark_mask = 600"
    by (simp_all add: dark_mask_def)
  have "first_terrain_row dark_mask (k mod 800) (py_range 600) = Some 0" for k :: int
    by (rule first_terrain_row_dark) simp_all
  then show ?thesis
    by (simp add: get_terrain_height_at_screen_x_def Let_def w SCREEN_WIDTH_def
                  int_truediv_def fl_zero fmul_def py_int_def)
qed

lemma screen_pos_centre:
  assumes "azimuth f = paz"
  shows "get_screen_pos ex_env_dark f paz = Inr (Some (400, terrain_offset f))"
proof -
  have a: "fadd (float_of_int 0) 75 = 75"
    by (simp add: float_of_int_def fl_zero fadd_def fl_numeral)
  have b: "fdiv 75 (float_of_int FOV) = 1 / 2"
    by (simp add: fdiv_def float_of_int_def FOV_def fl_numeral fl_half)
  have c: "fmul (1 / 2) (float_of_int SCREEN_WIDTH) = 400"
    by (simp add: fmul_def float_of_int_def SCREEN_WIDTH_def fl_numeral)
  have x: "py_int (fmul (fdiv (fadd (float_of_int 0) 75) (float_of_int FOV))
                        (float_of_int SCREEN_WIDTH)) = 400"
    by (simp add: a b c py_int_def)
  show ?thesis
    using assms
    by (simp add: get_screen_pos_def Let_def int_truediv_FOV_2 x ex_env_dark_def
                  get_terrain_height_dark)
qed

lemma screen_pos_behind:
  assumes "azimuth f = 180"
  shows "get_screen_pos e f 0 = Inr None"
  using assms by (simp add: get_screen_pos_def Let_def int_truediv_FOV_2)

lemma aim_bearing_centre:
  assumes "fst (crosshair_pos g) = 400" "player_azimuth g = 0"
  shows "fst (draw_osborne_ui e g) = 0"
proof -
  have "fl (- 75) = - 75" using fl_minus[of 75] by (simp add: fl_numeral)
  then show ?thesis
    using assms
    by (simp add: draw_osborne_ui_def Let_def int_truediv_def SCREEN_WIDTH_def FOV_def fl_half
                  float_of_int_def fl_numeral fmul_def fadd_def fl_zero py_int_def)
qed

lemma is_hit_centre:
  assumes "fst (crosshair_pos g) = 400" "player_azimuth g = 0" "azimuth f = 0"
  shows "is_hit ex_env_dark g f \<longleftrightarrow>
           \<not> reported f \<and> \<bar>terrain_offset f - snd (crosshair_pos g)\<bar> < 50"
proof -
  have "real_of_int \<bar>a - b\<bar> < real_of_int 50 \<longleftrightarrow> \<bar>a - b\<bar> < 50" for a b :: int
    by (rule of_int_less_iff)
  then have "\<bar>real_of_int a - real_of_int b\<bar> < 50 \<longleftrightarrow> \<bar>a - b\<bar> < 50" for a b :: int
    by simp
  then show ?thesis
    using assms
    by (simp add: is_hit_def screen_pos_centre[of f 0] aim_bearing_centre)
qed

lemma is_hit_behind:
  assumes "player_azimuth g = 0" "azimuth f = 180"
  shows "\<not> is_hit e g f"
  using assms by (simp add: is_hit_def screen_pos_behind)

lemma ex_masks:
  "0 < get_width (background_mid_mask ex_env_dark)"
  "0 < get_width (background_far_mask ex_env_dark)"
  by (simp_all add: ex_env_dark_def dark_mask_def)

lemma ex_aim_fields:
  "fst (crosshair_pos ex_aim) = 400" "snd (crosshair_pos ex_aim) = 10" "player_azimuth ex_aim = 0"
  "fires ex_aim = [ex_fire_hidden, ex_fire_seen, ex_fire_a, ex_fire_b]" "reports ex_aim = []"
  by (simp_all add: ex_aim_def)

lemma ex_fire_fields:
  "azimuth ex_fire_hidden = 180" "azimuth ex_fire_seen = 0" "azimuth ex_fire_a = 0"
  "azimuth ex_fire_b = 0" "reported ex_fire_seen" "\<not> reported ex_fire_a" "\<not> reported ex_fire_b"
  "terrain_offset ex_fire_a = 10" "terrain_offset ex_fire_b = 20"
  by (simp_all add: ex_fire_hidden_def ex_fire_seen_def ex_fire_a_def ex_fire_b_def)

lemma check_report_ex_aim: "check_report ex_env_dark ex_aim = Inr ex_aim1"
proof -
  have h: "\<not> is_hit ex_env_dark ex_aim ex_fire_hidden"
    "\<not> is_hit ex_env_dark ex_aim ex_fire_seen"
    "is_hit ex_env_dark ex_aim ex_fire_a"
    by (simp_all add: is_hit_behind is_hit_centre ex_aim_fields ex_fire_fields)
  show ?thesis
    using check_report_dropWhile[OF ex_masks, of ex_aim]
    by (simp add: ex_aim_fields h aim_bearing_centre ex_aim1_def)
qed

lemma check_report_ex_aim1: "check_report ex_env_dark ex_aim1 = Inr ex_aim2"
proof -
  have g: "fst (crosshair_pos ex_aim1) = 400" "snd (crosshair_pos ex_aim1) = 10"
    "player_azimuth ex_aim1 = 0"
    "fires ex_aim1 = [ex_fire_hidden, ex_fire_seen, ex_fire_a\<lparr>reported := True\<rparr>, ex_fire_b]"
    "reports ex_aim1 = [(0, 10)]"
    by (simp_all add: ex_aim1_def ex_aim_def)
  have h: "\<not> is_hit ex_env_dark ex_aim1 ex_fire_hidden"
    "\<not> is_hit ex_env_dark ex_aim1 ex_fire_seen"
    "\<not> is_hit ex_env_dark ex_aim1 (ex_fire_a\<lparr>reported := True\<rparr>)"
    "is_hit ex_env_dark ex_aim1 ex_fire_b"
    by (simp_all add: is_hit_behind is_hit_centre g ex_fire_fields)
  have "check_report ex_env_dark ex_aim1
          = Inr (ex_aim1\<lparr>fires := [ex_fire_hidden, ex_fire_seen, ex_fire_a\<lparr>reported := True\<rparr>,
                                   ex_fire_b\<lparr>reported := True\<rparr>],
                         reports := [(0, 10), (0, 10)]\<rparr>)"
    using check_report_dropWhile[OF ex_masks, of ex_aim1]
    by (simp add: g h aim_bearing_centre)
  then show ?thesis by (simp add: ex_aim1_def ex_aim2_def)
qed

lemma check_report_ex_aim2: "check_report ex_env_dark ex_aim2 = Inr ex_aim2"
proof -
  have g: "fst (crosshair_pos ex_aim2) = 400" "snd (crosshair_pos ex_aim2) = 10"
    "player_azimuth ex_aim2 = 0"
    "fires ex_aim2 = [ex_fire_hidden, ex_fire_seen, ex_fire_a\<lparr>reported := True\<rparr>,
                      ex_fire_b\<lparr>reported := True\<rparr>]"
    by (simp_all add: ex_aim2_def ex_aim_def)
  have h: "\<not> is_hit ex_env_dark ex_aim2 ex_fire_hidden"
    "\<not> is_hit ex_env_dark ex_aim2 ex_fire_seen"
    "\<not> is_hit ex_env_dark ex_aim2 (ex_fire_a\<lparr>reported := True\<rparr>)"
    "\<not> is_hit ex_env_dark ex_aim2 (ex_fire_b\<lparr>reported := True\<rparr>)"
    by (simp_all add: is_hit_behind is_hit_centre g ex_fire_fields)
  show ?thesis
    using check_report_dropWhile[OF ex_masks, of ex_aim2]
    by (simp add: g h)
qed

lemma later_report_ex: "later_report ex_env_dark ex_aim ex_aim2"
proof -
  have 1: "later_report ex_env_dark ex_aim ex_aim1"
    by (rule later_report.call[OF later_report.start refl refl check_report_ex_aim])
  have 2: "later_report ex_env_dark ex_aim ex_aim2"
    by (rule later_report.call[OF 1 refl refl check_report_ex_aim1])
  show ?thesis
    by (rule later_report.call[OF 2 refl refl check_report_ex_aim2])
qed

lemma draw_ex:
  "draw ex_env_dark ex_fire_hidden 0 = Inr None"
  "draw ex_env_dark ex_fire_seen 0 = Inr (Some (400, 10))"
  "draw ex_env_dark ex_fire_a 0 = Inr (Some (400, 10))"
  "draw ex_env_dark (ex_fire_a\<lparr>reported := True\<rparr>) 0 = Inr (Some (400, 10))"
  "draw ex_env_dark ex_fire_b 0 = Inr (Some (400, 20))"
  by (simp_all add: draw_def screen_pos_behind screen_pos_centre ex_fire_fields)
     (simp_all add: ex_fire_seen_def ex_fire_a_def)

lemma ex_layers:
  "layer ex_fire_hidden = Far" "layer ex_fire_seen = Mid" "layer ex_fire_a = Mid"
  "layer ex_fire_b = Far"
  by (simp_all add: ex_fire_hidden_def ex_fire_seen_def ex_fire_a_def ex_fire_b_def)

lemma ex_expired:
  "is_expired 100001 ex_fire_hidden" "\<not> is_expired 100001 ex_fire_seen"
  "is_expired 100001 ex_fire_a" "\<not> is_expired 100001 ex_fire_b"
  "\<not> is_expired 99999 ex_fire_hidden"
  "\<not> is_expired 1000 ex_fire_hidden" "\<not> is_expired 1000 ex_fire_seen"
  "\<not> is_expired 1000 ex_fire_a" "\<not> is_expired 1000 ex_fire_b"
  by (simp_all add: is_expired_def ex_fire_hidden_def ex_fire_seen_def ex_fire_a_def
                    ex_fire_b_def)

lemma ex_distinct:
  "ex_fire_hidden \<noteq> ex_fire_seen" "ex_fire_hidden \<noteq> ex_fire_a" "ex_fire_a \<noteq> ex_fire_seen"
  "ex_fire_a \<noteq> ex_fire_b" "ex_fire_hidden \<noteq> ex_fire_b" "ex_fire_seen \<noteq> ex_fire_b"
  by (simp_all add: ex_fire_hidden_def ex_fire_seen_def ex_fire_a_def ex_fire_b_def)

lemma draw_far_ex:
  "draw_far ex_env_dark 100001 ex_aim = Inr (ex_aim\<lparr>fires := [ex_fire_seen, ex_fire_a, ex_fire_b]\<rparr>)"
  by (simp add: draw_far_def draw_layer_def ex_aim_fields ex_layers ex_expired draw_ex ex_distinct)

lemma draw_mid_ex:
  "draw_mid ex_env_dark 100001 (ex_aim\<lparr>fires := [ex_fire_seen, ex_fire_a, ex_fire_b]\<rparr>)
     = Inr ex_swept"
  by (simp add: draw_mid_def draw_layer_def ex_aim_fields ex_layers ex_expired draw_ex ex_distinct
                ex_swept_def)

lemma frame_ex_sweep: "frame ex_env_dark [] False False 100001 ex_aim = Inr ex_swept"
proof -
  have "spawn_due ex_env_dark 100001 ex_aim = Inr ex_aim"
    by (simp add: spawn_due_def ex_aim_def)
  then show ?thesis
    by (simp add: frame_def handle_keys_def draw_far_ex draw_mid_ex)
qed

lemma frame_ex_report: "frame ex_env_dark [KEYDOWN_SPACE] False False 1000 ex_aim = Inr ex_aim1"
proof -
  have o: "osborne_open ex_aim" by (simp add: ex_aim_def)
  have s: "spawn_due ex_env_dark 1000 ex_aim1 = Inr ex_aim1"
    by (simp add: spawn_due_def ex_aim1_def ex_aim_def)
  have f: "fires ex_aim1 = [ex_fire_hidden, ex_fire_seen, ex_fire_a\<lparr>reported := True\<rparr>, ex_fire_b]"
    "player_azimuth ex_aim1 = 0"
    by (simp_all add: ex_aim1_def ex_aim_def)
  have l: "layer (ex_fire_a\<lparr>reported := True\<rparr>) = Mid"
    "\<not> is_expired 1000 (ex_fire_a\<lparr>reported := True\<rparr>)"
    by (simp_all add: ex_layers is_expired_reported ex_expired)
  have 1: "draw_far ex_env_dark 1000 ex_aim1 = Inr ex_aim1"
    by (simp add: draw_far_def draw_layer_def f l ex_layers ex_expired draw_ex)
  have 2: "draw_mid ex_env_dark 1000 ex_aim1 = Inr ex_aim1"
    by (simp add: draw_mid_def draw_layer_def f l ex_layers ex_expired draw_ex)
  show ?thesis
    by (simp add: frame_def handle_event_def o check_report_ex_aim handle_keys_def s 1 2)
qed

section \<open>The properties at the example states\<close>

theorem check_report_first_match_witness:
  "check_report ex_env_dark ex_aim = Inr ex_aim1"
proof -
  have g: "fst (crosshair_pos ex_aim) = 400" "player_azimuth ex_aim = 0"
    "snd (crosshair_pos ex_aim) = 10"
    by (simp_all add: ex_aim_def)
  have h: "\<not> is_hit ex_env_dark ex_aim ex_fire_hidden"
    "\<not> is_hit ex_env_dark ex_aim ex_fire_seen"
    "is_hit ex_env_dark ex_aim ex_fire_a"
    by (simp_all add: is_hit_behind is_hit_centre g ex_fire_hidden_def ex_fire_seen_def
                      ex_fire_a_def)
  have fs: "fires ex_aim = [ex_fire_hidden, ex_fire_seen, ex_fire_a, ex_fire_b]"
    "reports ex_aim = []"
    by (simp_all add: ex_aim_def)
  show ?thesis
    using check_report_first_match[OF ex_masks, of ex_aim]
    by (simp add: fs h aim_bearing_centre g ex_aim1_def)
qed

theorem reported_once_witness:
  "later_report ex_env_dark ex_aim ex_aim2
   \<and> map reported (fires ex_aim) = [False, True, False, False]
   \<and> map reported (fires ex_aim2) = [False, True, True, True]
   \<and> length (reports ex_aim2) + length (filter (\<lambda>f. \<not> reported f) (fires ex_aim2))
       = length (reports ex_aim) + length (filter (\<lambda>f. \<not> reported f) (fires ex_aim))"
  using reported_once[OF later_report_ex] later_report_ex
  by (simp add: ex_aim_def ex_aim2_def ex_fire_hidden_def ex_fire_seen_def ex_fire_a_def
                ex_fire_b_def)

theorem expiry_only_exit_witness:
  "is_expired 100001 ex_fire_hidden \<and> \<not> is_expired 99999 ex_fire_hidden
   \<and> frame ex_env_dark [] False False 100001 ex_aim = Inr ex_swept
   \<and> fires ex_swept = filter (\<lambda>x. \<not> is_expired 100001 x) (fires ex_aim)
   \<and> fires ex_swept = [ex_fire_seen, ex_fire_b]
   \<and> \<not> is_expired 100001 ex_fire_seen \<and> \<not> is_expired 100001 ex_fire_b"
proof -
  have a: "of_int 100001 = of_int (spawn_time ex_fire_hidden) + lifetime ex_fire_hidden + 1"
    and b: "of_int 99999 = of_int (spawn_time ex_fire_hidden) + lifetime ex_fire_hidden - 1"
    by (simp_all add: ex_fire_hidden_def)
  from expiry_only_exit[of 100001 ex_fire_hidden ex_env_dark ex_aim
          "ex_aim\<lparr>fires := [ex_fire_seen, ex_fire_a, ex_fire_b]\<rparr>" ex_swept
          "[]" False False ex_swept]
       expiry_only_exit[of 99999 ex_fire_hidden ex_env_dark ex_aim ex_aim ex_aim "[]" False False ex_aim]
       a b draw_far_ex draw_mid_ex frame_ex_sweep
  show ?thesis
    by (simp add: ex_swept_def ex_expired)
qed

theorem reports_grow_witness:
  "check_report ex_env_dark ex_aim = Inr ex_aim1
   \<and> frame ex_env_dark [KEYDOWN_SPACE] False False 1000 ex_aim = Inr ex_aim1
   \<and> reports ex_aim = []
   \<and> reports ex_aim1 = [(fst (draw_osborne_ui ex_env_dark ex_aim), snd (crosshair_pos ex_aim))]
   \<and> (\<exists>rs. reports ex_aim1 = reports ex_aim @ rs)"
  using reports_grow[of ex_env_dark ex_aim ex_aim1 "[KEYDOWN_SPACE]" False False 1000 ex_aim1]
        check_report_ex_aim frame_ex_report
  by (simp add: ex_aim1_def ex_aim_fields aim_bearing_centre)

theorem reports_grow_counterexample:
  "check_report ex_env_dark ex_aim = Inr ex_aim1
   \<and> crosshair_pos ex_aim = (400, 10)
   \<and> reports ex_aim1 = [(0, 10)]
   \<and> \<lfloor>(300 - 10) / (600 / 90 :: rat)\<rfloor> = 43"
  using check_report_ex_aim by (simp add: ex_aim1_def ex_aim_def floor_rat_numeral)

theorem render_query_roundtrip_witness:
  "draw_parallax_layer wide_mask 1 270 (\<lambda>sx. None) 500 = Some (ImageCol 200)
   \<and> first_terrain_row wide_mask 200 (py_range 600) = Some 0
   \<and> get_terrain_height_at_screen_x ex_fire_a 500 wide_mask 270 = Inr 10"
proof -
  have w: "SCREEN_WIDTH < get_width wide_mask" "get_width wide_mask = 1200"
    "get_height wide_mask = 600"
    by (simp_all add: wide_mask_def SCREEN_WIDTH_def)
  have x: "(0::int) \<le> 500" "500 < SCREEN_WIDTH" by (simp_all add: SCREEN_WIDTH_def)
  have "(2::rat) powi (- 2) = 1 / 4" by (simp add: power_int_def power2_eq_square)
  then have q: "fl (3 / 4) = 3 / 4" using fl_exact[of 3 "- 2"] by simp
  have t: "fmul (fmul (int_truediv 270 360) (float_of_int 1200)) (float_of_int 1) = 900"
    by (simp add: int_truediv_def q float_of_int_def fl_numeral fl_one fmul_def)
  have r: "first_terrain_row wide_mask 200 (py_range 600) = Some 0"
    by (simp add: py_range_Cons get_at_def wide_mask_def int_truediv_def fl_zero)
  have y: "py_int (fmul (int_truediv 0 600) (float_of_int SCREEN_HEIGHT)) = 0"
    by (simp add: int_truediv_def fl_zero fmul_def py_int_def)
  have o: "terrain_offset ex_fire_a = 10" by (simp add: ex_fire_a_def)
  from render_query_roundtrip[OF w(1) x, of 270 "\<lambda>sx. None" ex_fire_a]
  show ?thesis
    by (simp add: w t py_int_of_int[of 900, simplified] r y o)
qed

section \<open>Screen column and elevation, value by value\<close>

lemma all_between_iff: "all_between P lo hi \<longleftrightarrow> (\<forall>k. lo \<le> k \<and> k \<le> hi \<longrightarrow> P k)"
proof (induction P lo hi rule: all_between.induct)
  case (1 P lo hi)
  show ?case
  proof (cases "hi < lo")
    case True
    then show ?thesis by (subst all_between.simps) auto
  next
    case False
    have "(\<forall>k. lo \<le> k \<and> k \<le> hi \<longrightarrow> P k) \<longleftrightarrow> P lo \<and> (\<forall>k. lo + 1 \<le> k \<and> k \<le> hi \<longrightarrow> P k)"
    proof
      assume a: "\<forall>k. lo \<le> k \<and> k \<le> hi \<longrightarrow> P k"
      then show "P lo \<and> (\<forall>k. lo + 1 \<le> k \<and> k \<le> hi \<longrightarrow> P k)" using False by auto
    next
      assume a: "P lo \<and> (\<forall>k. lo + 1 \<le> k \<and> k \<le> hi \<longrightarrow> P k)"
      show "\<forall>k. lo \<le> k \<and> k \<le> hi \<longrightarrow> P k"
      proof (intro allI impI)
        fix k assume "lo \<le> k \<and> k \<le> hi"
        then have "k = lo \<or> (lo + 1 \<le> k \<and> k \<le> hi)" by auto
        then show "P k" using a by auto
      qed
    qed
    then show ?thesis using False 1 by (subst all_between.simps) simp
  qed
qed

lemma screen_x_table: "all_between screen_x_ok 1 150"
  by code_simp

lemma elevation_table: "all_between elevation_ok 1 300"
  by code_simp

lemma fl_nd_600_90: "fl_nd 600 90 = (7505999378950827, 2)"
  by code_simp

lemma py_int_val:
  assumes "0 < fst ne"
  shows "py_int (val ne) = num_of ne div den_of ne"
proof -
  have "0 < val ne" using assms by (simp add: val_def)
  then have "py_int (val ne) = \<lfloor>val ne\<rfloor>" by (simp add: py_int_def)
  also have "\<dots> = num_of ne div den_of ne"
    unfolding val_as_frac by (rule floor_divide_of_int_eq)
  finally show ?thesis .
qed

lemma py_int_minus_val:
  assumes "0 < fst ne"
  shows "py_int (- val ne) = - (num_of ne div den_of ne)"
proof -
  have "0 < val ne" using assms by (simp add: val_def)
  then have "py_int (- val ne) = - \<lfloor>val ne\<rfloor>" by (simp add: py_int_def)
  also have "\<lfloor>val ne\<rfloor> = num_of ne div den_of ne"
    unfolding val_as_frac by (rule floor_divide_of_int_eq)
  finally show ?thesis .
qed

lemma fl_val_times:
  assumes "0 < fst ne" "0 < c"
  shows "fl (val ne * of_int c) = val (fl_nd (num_of ne * c) (den_of ne))"
proof -
  have eq: "val ne * of_int c = of_int (num_of ne * c) / of_int (den_of ne)"
    by (simp add: val_as_frac)
  have "0 < num_of ne * c" using assms num_of_pos[OF assms(1)] by simp
  then show ?thesis unfolding eq by (rule fl_frac[OF _ den_of_pos])
qed

lemma fl_of_int_div_val:
  assumes "0 < fst ne" "0 < a"
  shows "fl (of_int a / val ne) = val (fl_nd (a * den_of ne) (num_of ne))"
proof -
  have n: "0 < num_of ne" by (rule num_of_pos[OF assms(1)])
  have d: "0 < den_of ne" by (rule den_of_pos)
  have eq: "of_int a / val ne = of_int (a * den_of ne) / of_int (num_of ne)"
    using n d by (simp add: val_as_frac)
  have "0 < a * den_of ne" using assms(2) d by simp
  then show ?thesis unfolding eq by (rule fl_frac[OF _ n])
qed

lemma screen_x_value:
  assumes "- 75 \<le> d" "d \<le> 75"
  shows "py_int (fmul (fdiv (fadd (float_of_int d) (int_truediv FOV 2)) (float_of_int FOV))
                      (float_of_int SCREEN_WIDTH))
         = (if d = 12 then 463 else (d + 75) * 800 div 150)"
proof -
  define k where "k = d + 75"
  have k: "0 \<le> k" "k \<le> 150" using assms by (simp_all add: k_def)
  have "\<bar>d\<bar> < 2 ^ 53" "\<bar>d + 75\<bar> < 2 ^ 53" using assms by simp_all
  then have a: "fadd (float_of_int d) (int_truediv FOV 2) = of_int k"
    using fl_of_int[of "d + 75"]
    by (simp add: float_of_int_def fl_of_int int_truediv_FOV_2 fadd_def k_def)
  have e: "py_int (fmul (fdiv (fadd (float_of_int d) (int_truediv FOV 2)) (float_of_int FOV))
                      (float_of_int SCREEN_WIDTH)) = py_int (fl (fl (of_int k / 150) * 800))"
    unfolding a by (simp add: fdiv_def fmul_def float_of_int_def FOV_def SCREEN_WIDTH_def fl_numeral)
  show ?thesis
  proof (cases "k = 0")
    case True
    then show ?thesis using e by (simp add: fl_zero py_int_def k_def)
  next
    case False
    then have kpos: "0 < k" using k by simp
    define ne where "ne = fl_nd k 150"
    have m: "0 < fst ne" unfolding ne_def by (rule fl_nd_mantissa_pos) (simp_all add: kpos)
    have 1: "fl (of_int k / 150) = val ne"
      using fl_frac[OF kpos, of 150] by (simp add: ne_def)
    define ne2 where "ne2 = fl_nd (num_of ne * 800) (den_of ne)"
    have 2: "fl (val ne * 800) = val ne2"
      using fl_val_times[OF m, of 800] by (simp add: ne2_def)
    have m2: "0 < fst ne2" unfolding ne2_def
      by (rule fl_nd_mantissa_pos) (simp_all add: num_of_pos[OF m] den_of_pos)
    have "py_int (fl (fl (of_int k / 150) * 800)) = screen_x_int k"
      unfolding 1 2 py_int_val[OF m2] by (simp add: screen_x_int_def ne_def ne2_def Let_def)
    moreover have "screen_x_ok k"
      using screen_x_table kpos k by (simp add: all_between_iff)
    ultimately show ?thesis using e by (auto simp: screen_x_ok_def k_def)
  qed
qed

lemma elevation_value:
  assumes "0 \<le> cy" "cy \<le> 600"
  shows "py_int (fdiv (float_of_int (300 - cy)) (int_truediv 600 90))
         = (if cy \<le> 300 then (300 - cy) * 90 div 600 else - ((cy - 300) * 90 div 600))"
proof -
  define c :: "int \<times> int" where "c = (7505999378950827, 2)"
  have cv: "int_truediv 600 90 = val c"
    using fl_frac[of 600 90] by (simp add: int_truediv_def fl_nd_600_90 c_def)
  have cm: "0 < fst c" by (simp add: c_def)
  have cn: "num_of c = 7505999378950827" "den_of c = 1125899906842624"
    by (simp_all add: c_def num_of_def den_of_def)
  have pos: "py_int (fl (of_int a / val c)) = a * 90 div 600" if a: "0 < a" "a \<le> 300" for a
  proof -
    define ne where "ne = fl_nd (a * den_of c) (num_of c)"
    have 1: "fl (of_int a / val c) = val ne"
      unfolding ne_def by (rule fl_of_int_div_val[OF cm a(1)])
    have m: "0 < fst ne" unfolding ne_def
      by (rule fl_nd_mantissa_pos) (simp_all add: cn a)
    have "py_int (val ne) = elevation_int a"
      unfolding py_int_val[OF m] by (simp add: elevation_int_def ne_def cn Let_def)
    moreover have "elevation_ok a" using elevation_table a by (simp add: all_between_iff)
    ultimately show ?thesis by (simp add: 1 elevation_ok_def)
  qed
  have neg: "py_int (fl (- (of_int a / val c))) = - (a * 90 div 600)" if a: "0 < a" "a \<le> 300" for a
  proof -
    define ne where "ne = fl_nd (a * den_of c) (num_of c)"
    have 1: "fl (of_int a / val c) = val ne"
      unfolding ne_def by (rule fl_of_int_div_val[OF cm a(1)])
    have m: "0 < fst ne" unfolding ne_def
      by (rule fl_nd_mantissa_pos) (simp_all add: cn a)
    have "num_of ne div den_of ne = elevation_int a"
      by (simp add: elevation_int_def ne_def cn Let_def)
    moreover have "elevation_ok a" using elevation_table a by (simp add: all_between_iff)
    ultimately show ?thesis by (simp add: fl_minus 1 py_int_minus_val[OF m] elevation_ok_def)
  qed
  have f: "float_of_int (300 - cy) = of_int (300 - cy)"
    using assms by (intro float_of_int_exact) simp
  consider "cy = 300" | "cy < 300" | "300 < cy" by linarith
  then show ?thesis
  proof cases
    case 1
    then show ?thesis by (simp add: fdiv_def float_of_int_def fl_zero py_int_def)
  next
    case 2
    then have "py_int (fl (of_int (300 - cy) / val c)) = (300 - cy) * 90 div 600"
      using assms by (intro pos) simp_all
    with 2 show ?thesis by (simp add: fdiv_def f cv)
  next
    case 3
    then have "py_int (fl (- (of_int (cy - 300) / val c))) = - ((cy - 300) * 90 div 600)"
      using assms by (intro neg) simp_all
    moreover have "(of_int (300 - cy) :: rat) / val c = - (of_int (cy - 300) / val c)"
    proof -
      have "(of_int (300 - cy) :: rat) / val c = (- of_int (cy - 300)) / val c" by simp
      also have "\<dots> = - (of_int (cy - 300) / val c)" by (rule minus_divide_left[symmetric])
      finally show ?thesis .
    qed
    ultimately show ?thesis using 3 by (simp add: fdiv_def f cv del: of_int_diff)
  qed
qed

section \<open>Field of view and the instrument reading\<close>

lemma floor_scaled: "\<lfloor>(of_int d + 150 / 2) / 150 * 800 :: rat\<rfloor> = (d + 75) * 800 div 150"
proof -
  have "(of_int d + 150 / 2) / 150 * 800 = (of_int ((d + 75) * 800) :: rat) / of_int 150"
    by simp
  then show ?thesis by (simp only: floor_divide_of_int_eq)
qed

text \<open>
  Claim C5, as amended: \<open>get_screen_pos\<close> returns none exactly when the signed difference
  \<open>\<Delta> = ((bearing - viewBearing + 180) mod 360) - 180\<close> has \<open>|\<Delta>| > 75\<close>; otherwise it
  returns a position \<open>(x, y)\<close> whose \<open>x\<close> is \<open>int((\<Delta> + 150 / 2) / 150 * 800)\<close> evaluated in
  double precision. That value is \<open>floor((\<Delta> + 75) / 150 * 800)\<close> for every \<open>\<Delta>\<close> of the
  field of view except \<open>\<Delta> = 12\<close>, where the product is rounded below 464 and \<open>x\<close> is 463.
\<close>

theorem screen_position_fov:
  assumes "0 < get_width (background_mid_mask e)" and "0 < get_width (background_far_mask e)"
  shows "(75 < \<bar>(azimuth f - v + 180) mod 360 - 180\<bar> \<longrightarrow> get_screen_pos e f v = Inr None)
       \<and> (\<bar>(azimuth f - v + 180) mod 360 - 180\<bar> \<le> 75 \<longrightarrow>
            (\<exists>y. get_screen_pos e f v =
                   Inr (Some (if (azimuth f - v + 180) mod 360 - 180 = 12 then 463
                              else \<lfloor>(of_int ((azimuth f - v + 180) mod 360 - 180) + 150 / 2)
                                     / 150 * 800 :: rat\<rfloor>, y))))"
proof -
  define d where "d = (azimuth f - v + 180) mod 360 - 180"
  define x where "x = py_int (fmul (fdiv (fadd (float_of_int d) (int_truediv FOV 2))
                                         (float_of_int FOV)) (float_of_int SCREEN_WIDTH))"
  define m where "m = (if layer f = Far then background_far_mask e else background_mid_mask e)"
  have "0 < get_width m" using assms by (simp add: m_def)
  then obtain y where y: "get_terrain_height_at_screen_x f x m v = Inr y"
    using get_terrain_height_no_error by blast
  have c: "(of_int \<bar>d\<bar> > int_truediv FOV 2) = (75 < \<bar>d\<bar>)"
    unfolding int_truediv_FOV_2 using of_int_less_iff[of 75 "\<bar>d\<bar>", where ?'a = rat] by simp
  have out: "get_screen_pos e f v = Inr None" if "75 < \<bar>d\<bar>"
    using that unfolding get_screen_pos_def Let_def d_def [symmetric] c
    by simp
  have "get_screen_pos e f v = Inr (Some (x, y))" if "\<bar>d\<bar> \<le> 75"
    using that y unfolding get_screen_pos_def Let_def d_def [symmetric] x_def [symmetric]
      m_def [symmetric] c
    by simp
  moreover have "x = (if d = 12 then 463 else \<lfloor>(of_int d + 150 / 2) / 150 * 800 :: rat\<rfloor>)"
    if "\<bar>d\<bar> \<le> 75"
    using that screen_x_value[of d] unfolding x_def floor_scaled by simp
  ultimately have "\<exists>y. get_screen_pos e f v =
                   Inr (Some (if d = 12 then 463
                              else \<lfloor>(of_int d + 150 / 2) / 150 * 800 :: rat\<rfloor>, y))"
    if "\<bar>d\<bar> \<le> 75"
    using that by auto
  with out show ?thesis unfolding d_def by blast
qed

lemma screen_pos_ex_12: "get_screen_pos ex_env_dark ex_fire_12 0 = Inr (Some (463, 10))"
proof -
  have d: "(azimuth ex_fire_12 - 0 + 180) mod 360 - 180 = 12" by (simp add: ex_fire_12_def)
  have x: "py_int (fmul (fdiv (fadd (float_of_int 12) (int_truediv FOV 2)) (float_of_int FOV))
                      (float_of_int SCREEN_WIDTH)) = 463"
    using screen_x_value[of 12] by simp
  have l: "layer ex_fire_12 = Mid" "terrain_offset ex_fire_12 = 10" by (simp_all add: ex_fire_12_def)
  have c: "(of_int \<bar>12::int\<bar> > int_truediv FOV 2) = False"
    unfolding int_truediv_FOV_2 by simp
  show ?thesis
    unfolding get_screen_pos_def Let_def d x c
    by (simp add: l ex_env_dark_def get_terrain_height_dark)
qed

theorem screen_position_fov_witness:
  "get_screen_pos ex_env_dark ex_fire_hidden 0 = Inr None
   \<and> (\<exists>y. get_screen_pos ex_env_dark ex_fire_12 0 = Inr (Some (463, y)))
   \<and> (\<exists>y. get_screen_pos ex_env_dark ex_fire_a 0 = Inr (Some (400, y)))"
proof -
  have 1: "(azimuth ex_fire_hidden - 0 + 180) mod 360 - 180 = - 180"
    by (simp add: ex_fire_hidden_def)
  have 2: "(azimuth ex_fire_12 - 0 + 180) mod 360 - 180 = 12"
    by (simp add: ex_fire_12_def)
  have 3: "(azimuth ex_fire_a - 0 + 180) mod 360 - 180 = 0"
    by (simp add: ex_fire_a_def)
  have f: "\<lfloor>(of_int 0 + 150 / 2) / 150 * 800 :: rat\<rfloor> = 400"
    unfolding floor_scaled by simp
  from screen_position_fov[OF ex_masks, of ex_fire_hidden 0]
       screen_position_fov[OF ex_masks, of ex_fire_12 0]
       screen_position_fov[OF ex_masks, of ex_fire_a 0] f
  show ?thesis
    unfolding 1 2 3 by simp
qed

theorem screen_position_fov_counterexample:
  "get_screen_pos ex_env_dark ex_fire_12 0 = Inr (Some (463, 10))
   \<and> azimuth ex_fire_12 = 12
   \<and> \<lfloor>(12 + 150 / 2) / 150 * 800 :: rat\<rfloor> = 464"
proof -
  have "\<lfloor>(of_int 12 + 150 / 2) / 150 * 800 :: rat\<rfloor> = 464"
    unfolding floor_scaled by simp
  then show ?thesis
    using screen_pos_ex_12 by (simp add: ex_fire_12_def)
qed

lemma py_int_cases: "py_int r = (if r < 0 then \<lceil>r\<rceil> else \<lfloor>r\<rfloor>)"
  by (simp add: py_int_def ceiling_def)

text \<open>
  Claim C3, as amended: the aim bearing shown by the instrument is
  \<open>int(aimX / 800 * 150 + (viewBearing - 75)) mod 360\<close>, where \<open>int\<close> truncates towards
  zero (it is the floor only when the sum, evaluated in double precision, is not negative,
  and the ceiling otherwise); \<open>check_report\<close> runs its loop with this same value; and for
  an aim point on the screen the displayed elevation is \<open>(300 - aimY) * 90 / 600\<close>
  truncated towards zero: the floor for \<open>aimY \<le> 300\<close>, the ceiling below the middle.
\<close>

theorem aim_reading:
  assumes "0 \<le> snd (crosshair_pos g)" and "snd (crosshair_pos g) \<le> 600"
  shows "fst (draw_osborne_ui e g) =
           (let E = fadd (fmul (int_truediv (fst (crosshair_pos g)) SCREEN_WIDTH) (float_of_int FOV))
                         (float_of_int (player_azimuth g - FOV div 2))
            in (if E < 0 then \<lceil>E\<rceil> else \<lfloor>E\<rfloor>) mod 360)
       \<and> check_report e g =
           (case check_report_loop e (player_azimuth g) (fst (draw_osborne_ui e g))
                   (fst (crosshair_pos g)) (snd (crosshair_pos g)) (fires g) of
              Inl err \<Rightarrow> Inl err
            | Inr (fs', None) \<Rightarrow> Inr (g\<lparr>fires := fs'\<rparr>)
            | Inr (fs', Some r) \<Rightarrow> Inr (g\<lparr>fires := fs', reports := reports g @ [r]\<rparr>))
       \<and> fst (snd (draw_osborne_ui e g)) =
           (if snd (crosshair_pos g) \<le> 300 then (300 - snd (crosshair_pos g)) * 90 div 600
            else - ((snd (crosshair_pos g) - 300) * 90 div 600))"
proof (intro conjI)
  show "fst (draw_osborne_ui e g) =
           (let E = fadd (fmul (int_truediv (fst (crosshair_pos g)) SCREEN_WIDTH) (float_of_int FOV))
                         (float_of_int (player_azimuth g - FOV div 2))
            in (if E < 0 then \<lceil>E\<rceil> else \<lfloor>E\<rfloor>) mod 360)"
    by (simp add: draw_osborne_ui_def Let_def py_int_cases)
  show "check_report e g =
           (case check_report_loop e (player_azimuth g) (fst (draw_osborne_ui e g))
                   (fst (crosshair_pos g)) (snd (crosshair_pos g)) (fires g) of
              Inl err \<Rightarrow> Inl err
            | Inr (fs', None) \<Rightarrow> Inr (g\<lparr>fires := fs'\<rparr>)
            | Inr (fs', Some r) \<Rightarrow> Inr (g\<lparr>fires := fs', reports := reports g @ [r]\<rparr>))"
    by (rule check_report_unfold)
  show "fst (snd (draw_osborne_ui e g)) =
           (if snd (crosshair_pos g) \<le> 300 then (300 - snd (crosshair_pos g)) * 90 div 600
            else - ((snd (crosshair_pos g) - 300) * 90 div 600))"
    using elevation_value[OF assms] by (simp add: draw_osborne_ui_def Let_def)
qed

lemma aim_bearing_ex_low: "fst (draw_osborne_ui e ex_low_aim) = 290"
proof -
  have a: "int_truediv 25 SCREEN_WIDTH = 1 / 32"
    using fl_div_pow2[of 1 5] by (simp add: int_truediv_def SCREEN_WIDTH_def)
  have b: "fmul (1 / 32) (float_of_int FOV) = 75 / 16"
    using fl_div_pow2[of 75 4] by (simp add: fmul_def float_of_int_def FOV_def fl_numeral)
  have "fl (1125 / 16) = 1125 / 16"
    using fl_div_pow2[of 1125 4] by simp
  then have "fl (- (1125 / 16)) = - (1125 / 16)" by (simp only: fl_minus)
  moreover have "fl (- 75) = - 75" using fl_minus[of 75] by (simp add: fl_numeral)
  ultimately have c: "fadd (75 / 16) (float_of_int (0 - FOV div 2)) = - (1125 / 16)"
    by (simp add: fadd_def float_of_int_def FOV_def)
  have d: "py_int (- (1125 / 16)) = - 70"
    by (simp add: py_int_def floor_rat_numeral)
  have g: "fst (crosshair_pos ex_low_aim) = 25" "player_azimuth ex_low_aim = 0"
    by (simp_all add: ex_low_aim_def ex_aim_def)
  show ?thesis
    unfolding draw_osborne_ui_def Let_def g a b c d by simp
qed

theorem aim_reading_witness:
  "fst (draw_osborne_ui ex_env_dark ex_low_aim) = 290
   \<and> fst (snd (draw_osborne_ui ex_env_dark ex_low_aim)) = 0"
proof -
  have g: "snd (crosshair_pos ex_low_aim) = 301" by (simp add: ex_low_aim_def)
  have "0 \<le> snd (crosshair_pos ex_low_aim)" "snd (crosshair_pos ex_low_aim) \<le> 600"
    by (simp_all add: g)
  from aim_reading[OF this, of ex_env_dark] show ?thesis
    by (simp add: g aim_bearing_ex_low)
qed

theorem aim_reading_counterexample:
  "crosshair_pos ex_low_aim = (25, 301) \<and> player_azimuth ex_low_aim = 0
   \<and> fst (draw_osborne_ui ex_env_dark ex_low_aim) = 290
   \<and> \<lfloor>25 / 800 * 150 + (0 - 150 / 2) :: rat\<rfloor> mod 360 = 289
   \<and> fst (snd (draw_osborne_ui ex_env_dark ex_low_aim)) = 0
   \<and> \<lfloor>(300 - 301) / (600 / 90) :: rat\<rfloor> = - 1"
proof -
  have g: "snd (crosshair_pos ex_low_aim) = 301" by (simp add: ex_low_aim_def)
  have e: "fst (snd (draw_osborne_ui ex_env_dark ex_low_aim)) = 0"
    using elevation_value[of 301] by (simp add: draw_osborne_ui_def Let_def g)
  have 1: "(25 / 800 * 150 + (0 - 150 / 2) :: rat) = - (1125 / 16)" by simp
  have 2: "((300 - 301) / (600 / 90) :: rat) = - (3 / 20)" by simp
  have f1: "\<lfloor>- (1125 / 16) :: rat\<rfloor> = - 71"
    using floor_divide_of_int_eq[of "- 1125" 16, where ?'a = rat] by simp
  have f2: "\<lfloor>- (3 / 20) :: rat\<rfloor> = - 1"
    using floor_divide_of_int_eq[of "- 3" 20, where ?'a = rat] by simp
  show ?thesis
    unfolding 1 2 f1 f2 using e aim_bearing_ex_low by (simp add: ex_low_aim_def ex_aim_def)
qed

subsection \<open>The parallax offset at bearing 33 on a mask 1200 wide\<close>

lemma parallax_offset_value:
  assumes v: "0 < v" and W: "0 < W" "W < 2 ^ 53"
  shows "py_int (fmul (fmul (int_truediv v 360) (float_of_int W)) (float_of_int 1))
         = parallax_offset_int v W"
proof -
  define ne where "ne = fl_nd v 360"
  define ne2 where "ne2 = fl_nd (num_of ne * W) (den_of ne)"
  define ne3 where "ne3 = fl_nd (num_of ne2 * 1) (den_of ne2)"
  have m: "0 < fst ne" unfolding ne_def by (rule fl_nd_mantissa_pos) (simp_all add: v)
  have m2: "0 < fst ne2" unfolding ne2_def
    by (rule fl_nd_mantissa_pos) (simp_all add: num_of_pos[OF m] den_of_pos W)
  have m3: "0 < fst ne3" unfolding ne3_def
    by (rule fl_nd_mantissa_pos) (simp_all add: num_of_pos[OF m2] den_of_pos)
  have 1: "int_truediv v 360 = val ne"
    using fl_frac[OF v, of 360] by (simp add: int_truediv_def ne_def)
  have fW: "float_of_int W = of_int W"
    using W by (intro float_of_int_exact) simp
  have f1: "float_of_int 1 = of_int 1"
    by (intro float_of_int_exact) simp
  have 2: "fmul (val ne) (of_int W) = val ne2"
    unfolding fmul_def ne2_def by (rule fl_val_times[OF m W(1)])
  have 3: "fmul (val ne2) (of_int 1) = val ne3"
    unfolding fmul_def ne3_def by (rule fl_val_times[OF m2]) simp
  show ?thesis
    unfolding 1 fW f1 2 3 py_int_val[OF m3]
    by (simp add: parallax_offset_int_def ne_def ne2_def ne3_def Let_def)
qed

lemma parallax_offset_33: "parallax_offset_int 33 1200 = 109"
  by code_simp

lemma render_column:
  assumes "SCREEN_WIDTH < get_width m" and "0 \<le> x" and "x < SCREEN_WIDTH"
  shows "draw_parallax_layer m 1 v c x =
           Some (ImageCol ((py_int (fmul (fmul (int_truediv v 360) (float_of_int (get_width m)))
                                         (float_of_int 1)) mod get_width m + x) mod get_width m))"
proof -
  define W where "W = get_width m"
  define off where "off = py_int (fmul (fmul (int_truediv v 360) (float_of_int W))
                                       (float_of_int 1)) mod W"
  have Wpos: "0 < W" using assms(1) by (simp add: W_def SCREEN_WIDTH_def)
  have o: "0 \<le> off" "off < W" using Wpos by (simp_all add: off_def)
  have wide: "\<not> W \<le> SCREEN_WIDTH" using assms(1) by (simp add: W_def)
  show ?thesis
    using blit_twice_column[OF assms(1)[folded W_def] assms(2,3) o, of c] wide
    by (simp add: draw_parallax_layer_def Let_def W_def [symmetric] off_def [symmetric])
qed

theorem render_query_roundtrip_counterexample:
  "get_width wide_mask = 1200
   \<and> py_int (fmul (fmul (int_truediv 33 360) (float_of_int 1200)) (float_of_int 1)) mod 1200 = 109
   \<and> draw_parallax_layer wide_mask 1 33 (\<lambda>sx. None) 0 = Some (ImageCol 109)
   \<and> (\<lfloor>33 / 360 * 1200 :: rat\<rfloor> mod 1200 + 0) mod 1200 = 110"
proof -
  have w: "SCREEN_WIDTH < get_width wide_mask" "get_width wide_mask = 1200"
    by (simp_all add: wide_mask_def SCREEN_WIDTH_def)
  have x: "(0::int) \<le> 0" "0 < SCREEN_WIDTH" by (simp_all add: SCREEN_WIDTH_def)
  have p: "py_int (fmul (fmul (int_truediv 33 360) (float_of_int 1200)) (float_of_int 1)) = 109"
    using parallax_offset_value[of 33 1200] by (simp add: parallax_offset_33)
  have r: "draw_parallax_layer wide_mask 1 33 (\<lambda>sx. None) 0 = Some (ImageCol 109)"
    using render_column[OF w(1) x, of 33 "\<lambda>sx. None"] by (simp add: w p)
  have "(33 / 360 * 1200 :: rat) = of_int 110" by simp
  then have f: "\<lfloor>33 / 360 * 1200 :: rat\<rfloor> = 110" by (simp only: floor_of_int)
  show ?thesis
    using w(2) p r by (simp add: f)
qed

end
